theory Spec2Isabelle
  imports Main
begin

section \<open>Data model\<close>

text \<open>
  The controller of \<^verbatim>\<open>csep561/net/spanning_tree_network.py\<close> keeps a set of switches,
  each with a list of outgoing Link objects and a MAC table, and a root switch.
  Link objects are shared: a switch's link list, the Link's reverse and the two sets of
  \<^verbatim>\<open>_rebuild_spanning_tree\<close> all refer to the same object, and activation mutates it in
  place. The model therefore keeps the Link objects in an explicit store (\<open>heap\<close>), indexed
  by an identifier that stands for the object reference. Switch objects are referred to by
  their dpid.
\<close>

type_synonym dpid = int

type_synonym port = int

type_synonym mac = string

type_synonym link_id = nat

datatype error =
    UnknownLocalSwitch dpid
  | UnknownRemoteSwitch dpid
  | AttributeError
  | KeyError
  | RecursionLimit

text \<open>
  Modelled from the spec: the Link class (module \<^verbatim>\<open>device.lldp_switch\<close>) is not part of
  the sources. A Link is one directed edge with an owning switch, a local port, the
  neighbour switch, the neighbour's port, an active flag (default false) and a reference to
  its reverse Link. The source reads \<^verbatim>\<open>link.port\<close>, \<^verbatim>\<open>link.switch\<close>,
  \<^verbatim>\<open>link.get_reverse()\<close> and \<^verbatim>\<open>link.is_active()\<close>, and calls \<^verbatim>\<open>link.activate()\<close> and
  \<^verbatim>\<open>link.deactivate()\<close>.
\<close>

record link =
  owner :: dpid
  port :: port
  switch :: dpid
  peer_port :: port
  active :: bool
  reverse :: link_id

text \<open>
  Modelled from the spec: the LldpSwitch class is not part of the sources. A switch has its
  dpid, the ordered collection of its outgoing Links (discovery order) and a MAC to port
  table.
\<close>

record lldp_switch =
  dpid :: dpid
  links :: "link_id list"
  mac_table :: "mac \<rightharpoonup> port"

record network =
  switches :: "lldp_switch list"
  root :: "dpid option"
  heap :: "link_id \<Rightarrow> link"
  next_link :: link_id

record link_discovery_event =
  local_switch :: dpid
  local_port :: port
  remote_dpid :: dpid
  remote_port :: port

record unknown_packet_source_event =
  event_switch :: dpid
  packet_src :: mac
  in_port :: port

section \<open>Collaborators\<close>

text \<open>
  Modelled from the spec: \<^verbatim>\<open>Network._get_switch\<close> (module \<^verbatim>\<open>net.network\<close>) is not part
  of the sources; the spec gives it as \<^verbatim>\<open>lookupSwitch(id) -> SwitchNode | not-found\<close>.
\<close>

definition get_switch :: "network \<Rightarrow> dpid \<Rightarrow> lldp_switch option" where
  "get_switch net d = find (\<lambda>sw. dpid sw = d) (switches net)"

definition update_switch ::
  "(lldp_switch \<Rightarrow> lldp_switch) \<Rightarrow> dpid \<Rightarrow> lldp_switch list \<Rightarrow> lldp_switch list" where
  "update_switch f d sws = map (\<lambda>sw. if dpid sw = d then f sw else sw) sws"

text \<open>
  Modelled from the spec: \<^verbatim>\<open>LldpSwitch.add_link\<close> is not part of the sources. Links are
  created in pairs when a notification arrives for a previously unseen (local switch, local
  port) edge; both directions are cross-linked as mutual reverses and start inactive.
  Re-discovery of a known (switch, port) creates nothing.
\<close>

definition add_link :: "dpid \<Rightarrow> port \<Rightarrow> dpid \<Rightarrow> port \<Rightarrow> network \<Rightarrow> network" where
  "add_link loc lp rem rp net =
     (case get_switch net loc of
        None \<Rightarrow> net
      | Some sw \<Rightarrow>
          if lp \<in> set (map (\<lambda>x. port (heap net x)) (links sw)) then net
          else
            let l = next_link net;
                r = Suc l;
                h = (heap net)
                      (l := \<lparr>owner = loc, port = lp, switch = rem, peer_port = rp,
                             active = False, reverse = r\<rparr>,
                       r := \<lparr>owner = rem, port = rp, switch = loc, peer_port = lp,
                             active = False, reverse = l\<rparr>)
            in net\<lparr>switches :=
                     update_switch (\<lambda>s. s\<lparr>links := links s @ [r]\<rparr>) rem
                       (update_switch (\<lambda>s. s\<lparr>links := links s @ [l]\<rparr>) loc (switches net)),
                   heap := h,
                   next_link := Suc r\<rparr>)"

text \<open>
  Modelled from the spec: \<^verbatim>\<open>LldpSwitch.learn_mac_location\<close> is not part of the sources;
  it records \<^verbatim>\<open>mac -> port\<close> in the switch's table, overwriting any prior binding.
\<close>

definition learn_mac_location :: "dpid \<Rightarrow> mac \<Rightarrow> port \<Rightarrow> network \<Rightarrow> network" where
  "learn_mac_location d m p net =
     net\<lparr>switches := update_switch (\<lambda>s. s\<lparr>mac_table := (mac_table s)(m \<mapsto> p)\<rparr>) d (switches net)\<rparr>"

text \<open>
  Modelled from the spec: \<^verbatim>\<open>Link.activate\<close> and \<^verbatim>\<open>Link.deactivate\<close> are not part of the
  sources; each sets the active flag of its own Link (the source calls them on a link and
  on its reverse separately).
\<close>

definition activate :: "link_id \<Rightarrow> (link_id \<Rightarrow> link) \<Rightarrow> (link_id \<Rightarrow> link)" where
  "activate l h = h(l := (h l)\<lparr>active := True\<rparr>)"

definition deactivate :: "link_id \<Rightarrow> (link_id \<Rightarrow> link) \<Rightarrow> (link_id \<Rightarrow> link)" where
  "deactivate l h = h(l := (h l)\<lparr>active := False\<rparr>)"

subsection \<open>Shortest paths\<close>

text \<open>
  Modelled from the spec: \<^verbatim>\<open>find_shortest_paths\<close> and \<^verbatim>\<open>DijkstraNode\<close> (module
  \<^verbatim>\<open>graph.dijkstra\<close>) are not part of the sources. The spec describes the classic
  single-source shortest path computation with uniform edge cost 1, returning for every
  node the neighbour on its best path toward the source, none for the source and for
  unreachable nodes, ties broken by the order of the neighbour lists (a strictly better
  distance is needed to replace a predecessor). A DijkstraNode is a name with the names of
  its neighbours.
\<close>

type_synonym dijkstra_node = "dpid \<times> dpid list"

fun relax ::
  "dpid \<Rightarrow> nat \<Rightarrow> dpid list \<Rightarrow> (dpid \<rightharpoonup> nat) \<times> (dpid \<rightharpoonup> dpid) \<Rightarrow> (dpid \<rightharpoonup> nat) \<times> (dpid \<rightharpoonup> dpid)" where
  "relax u du [] st = st"
| "relax u du (v # vs) (dist, prev) =
     (if (case dist v of None \<Rightarrow> True | Some dv \<Rightarrow> du + 1 < dv)
      then relax u du vs (dist(v \<mapsto> du + 1), prev(v \<mapsto> u))
      else relax u du vs (dist, prev))"

fun closest :: "(dpid \<rightharpoonup> nat) \<Rightarrow> dpid list \<Rightarrow> (dpid \<times> nat) option" where
  "closest dist [] = None"
| "closest dist (v # vs) =
     (case closest dist vs of
        None \<Rightarrow> (case dist v of None \<Rightarrow> None | Some dv \<Rightarrow> Some (v, dv))
      | Some (w, dw) \<Rightarrow>
          (case dist v of
             None \<Rightarrow> Some (w, dw)
           | Some dv \<Rightarrow> if dv \<le> dw then Some (v, dv) else Some (w, dw)))"

fun dijkstra_loop ::
  "nat \<Rightarrow> dijkstra_node list \<Rightarrow> dpid list \<Rightarrow> (dpid \<rightharpoonup> nat) \<times> (dpid \<rightharpoonup> dpid) \<Rightarrow> (dpid \<rightharpoonup> dpid)" where
  "dijkstra_loop 0 g unvisited (dist, prev) = prev"
| "dijkstra_loop (Suc k) g unvisited (dist, prev) =
     (case closest dist unvisited of
        None \<Rightarrow> prev
      | Some (u, du) \<Rightarrow>
          dijkstra_loop k g (removeAll u unvisited)
            (relax u du (case map_of g u of None \<Rightarrow> [] | Some ns \<Rightarrow> ns) (dist, prev)))"

definition find_shortest_paths :: "dijkstra_node list \<Rightarrow> dpid \<Rightarrow> (dpid \<times> dpid option) list" where
  "find_shortest_paths g src =
     (let prev = dijkstra_loop (length g) g (map fst g) ([src \<mapsto> 0], Map.empty)
      in map (\<lambda>(n, ns). (n, prev n)) g)"

section \<open>The spanning-tree builder\<close>

text \<open>
  The reachability sweep of \<^verbatim>\<open>_rebuild_spanning_tree\<close> (lines 35 to 46): the work list
  \<open>sws\<close> grows while it is scanned; \<open>added\<close> holds the switches already scanned.
  \<^verbatim>\<open>switch.links\<close> on a reference with no switch object behind it (\<^verbatim>\<open>None\<close>) raises
  AttributeError.
\<close>

function sweep :: "network \<Rightarrow> dpid list \<Rightarrow> dpid set \<Rightarrow> nat \<Rightarrow> error + dpid list" where
  "sweep net sws added i =
     (if i < length sws then
        (case get_switch net (sws ! i) of
           None \<Rightarrow> Inl AttributeError
         | Some sw \<Rightarrow>
             sweep net
               (sws @ map (\<lambda>x. switch (heap net x))
                        (filter (\<lambda>x. switch (heap net x) \<notin> insert (sws ! i) added) (links sw)))
               (insert (sws ! i) added) (i + 1))
      else Inr sws)"
  by pat_completeness auto

termination sweep
proof (relation "measures
    [\<lambda>(net, sws, added, i). card (dpid ` set (switches net) - added),
     \<lambda>(net, sws, added, i). length (filter (\<lambda>d. d \<in> added) (drop i sws))]")
  show "wf (measures
    [\<lambda>(net, sws, added, i). card (dpid ` set (switches net) - added),
     \<lambda>(net, sws, added, i). length (filter (\<lambda>d. d \<in> added) (drop i sws))])"
    by simp
next
  fix net :: network and sws :: "dpid list" and added :: "dpid set" and i :: nat
    and sw :: lldp_switch
  assume i: "i < length sws" and g: "get_switch net (sws ! i) = Some sw"
  let ?new = "map (\<lambda>x. switch (heap net x))
      (filter (\<lambda>x. switch (heap net x) \<notin> insert (sws ! i) added) (links sw))"
  have "sw \<in> set (switches net) \<and> dpid sw = sws ! i"
    using g unfolding get_switch_def by (auto simp: find_Some_iff)
  then have reg: "sws ! i \<in> dpid ` set (switches net)"
    by (metis image_eqI)
  show "((net, sws @ ?new, insert (sws ! i) added, i + 1), (net, sws, added, i))
      \<in> measures
    [\<lambda>(net, sws, added, i). card (dpid ` set (switches net) - added),
     \<lambda>(net, sws, added, i). length (filter (\<lambda>d. d \<in> added) (drop i sws))]"
  proof (cases "sws ! i \<in> added")
    case False
    have "card (dpid ` set (switches net) - insert (sws ! i) added)
            < card (dpid ` set (switches net) - added)"
      by (rule psubset_card_mono) (use reg False in auto)
    then show ?thesis by simp
  next
    case True
    then have eq: "insert (sws ! i) added = added" by auto
    have new: "filter (\<lambda>d. d \<in> added) ?new = []"
      using eq by (auto simp: filter_empty_conv)
    have "drop i sws = sws ! i # drop (Suc i) sws"
      using i by (simp add: Cons_nth_drop_Suc)
    then have "length (filter (\<lambda>d. d \<in> added) (drop (Suc i) (sws @ ?new)))
                 < length (filter (\<lambda>d. d \<in> added) (drop i sws))"
      using i True new by simp
    with eq show ?thesis by simp
  qed
qed

declare sweep.simps [simp del]

text \<open>
  Lines 49 to 52: one DijkstraNode per dpid of the sweep, its neighbours looked up by dpid
  in the node dictionary (\<^verbatim>\<open>nodes[x.switch.dpid]\<close> raises KeyError for a missing key).
\<close>

fun build_nodes :: "network \<Rightarrow> dpid list \<Rightarrow> dpid list \<Rightarrow> error + dijkstra_node list" where
  "build_nodes net names [] = Inr []"
| "build_nodes net names (d # ds) =
     (case get_switch net d of
        None \<Rightarrow> Inl AttributeError
      | Some sw \<Rightarrow>
          if \<not> set (map (\<lambda>x. switch (heap net x)) (links sw)) \<subseteq> set names then Inl KeyError
          else
            (case build_nodes net names ds of
               Inl e \<Rightarrow> Inl e
             | Inr g \<Rightarrow> Inr ((d, map (\<lambda>x. switch (heap net x)) (links sw)) # g)))"

text \<open>
  The state of the classification loop (lines 57 to 81): the Link objects and the two sets
  \<^verbatim>\<open>best_links\<close> and \<^verbatim>\<open>links_to_deactivate\<close>.
\<close>

record marks =
  store :: "link_id \<Rightarrow> link"
  best_links :: "link_id set"
  links_to_deactivate :: "link_id set"

text \<open>The inner loop (lines 63 to 81) over the links of one node whose best neighbour is \<open>b\<close>.\<close>

fun mark_links :: "dpid \<Rightarrow> link_id list \<Rightarrow> marks \<Rightarrow> marks" where
  "mark_links b [] m = m"
| "mark_links b (l # ls) m =
     (let r = reverse (store m l) in
      if switch (store m l) = b then
        mark_links b ls
          (m\<lparr>store := activate r (activate l (store m)),
             best_links := insert r (insert l (best_links m)),
             links_to_deactivate := links_to_deactivate m - {l} - {r}\<rparr>)
      else if l \<notin> best_links m \<and> r \<notin> best_links m then
        mark_links b ls
          (m\<lparr>links_to_deactivate := insert r (insert l (links_to_deactivate m))\<rparr>)
      else mark_links b ls m)"

text \<open>The outer loop (lines 59 to 63) over the items of \<^verbatim>\<open>paths\<close>.\<close>

fun mark_paths :: "network \<Rightarrow> (dpid \<times> dpid option) list \<Rightarrow> marks \<Rightarrow> error option \<times> marks" where
  "mark_paths net [] m = (None, m)"
| "mark_paths net ((n, None) # ps) m = mark_paths net ps m"
| "mark_paths net ((n, Some b) # ps) m =
     (case get_switch net n of
        None \<Rightarrow> (Some AttributeError, m)
      | Some sw \<Rightarrow> mark_paths net ps (mark_links b (links sw) m))"

text \<open>
  Lines 84 and 85: every link of the set is deactivated; the order in which the set is
  walked does not matter, since each step touches its own link only.
\<close>

definition deactivate_all :: "link_id set \<Rightarrow> (link_id \<Rightarrow> link) \<Rightarrow> (link_id \<Rightarrow> link)" where
  "deactivate_all D h = (\<lambda>l. if l \<in> D then (h l)\<lparr>active := False\<rparr> else h l)"

text \<open>
  \<^verbatim>\<open>_rebuild_spanning_tree(self, start = None)\<close>. The result is the exception raised, if
  any, and the network as the call leaves it. With no start and no root the work list is
  \<^verbatim>\<open>[None]\<close> and the first \<^verbatim>\<open>switch.links\<close> raises AttributeError.
\<close>

definition rebuild_spanning_tree :: "dpid option \<Rightarrow> network \<Rightarrow> error option \<times> network" where
  "rebuild_spanning_tree start net =
     (case (case start of None \<Rightarrow> root net | Some s \<Rightarrow> Some s) of
        None \<Rightarrow> (Some AttributeError, net)
      | Some s \<Rightarrow>
          (case sweep net [s] {} 0 of
             Inl e \<Rightarrow> (Some e, net)
           | Inr sws \<Rightarrow>
               (case build_nodes net sws (remdups sws) of
                  Inl e \<Rightarrow> (Some e, net)
                | Inr nodes \<Rightarrow>
                    (case mark_paths net (find_shortest_paths nodes s)
                            \<lparr>store = heap net, best_links = {}, links_to_deactivate = {}\<rparr> of
                       (Some e, m) \<Rightarrow> (Some e, net\<lparr>heap := store m\<rparr>)
                     | (None, m) \<Rightarrow>
                         (None, net\<lparr>heap := deactivate_all (links_to_deactivate m) (store m)\<rparr>)))))"

section \<open>The MAC-location propagator\<close>

text \<open>
  \<^verbatim>\<open>_teach_mac_location(self, switch, mac, port)\<close> recurses with no visited set. The first
  argument of the model is the number of nested calls the interpreter still allows: when it
  is used up the call does not return (Python raises its recursion-limit error).
\<close>

fun teach_mac_location :: "nat \<Rightarrow> network \<Rightarrow> dpid \<Rightarrow> mac \<Rightarrow> port \<Rightarrow> error + network" where
  "teach_mac_location 0 net s m p = Inl RecursionLimit"
| "teach_mac_location (Suc n) net s m p =
     (case get_switch net s of
        None \<Rightarrow> Inl AttributeError
      | Some sw \<Rightarrow>
          fold (\<lambda>l res.
                  case res of
                    Inl e \<Rightarrow> Inl e
                  | Inr net' \<Rightarrow>
                      teach_mac_location n net' (switch (heap net' l)) m
                        (port (heap net' (reverse (heap net' l)))))
               (filter (\<lambda>x. port (heap net x) \<noteq> p \<and> active (heap net x)) (links sw))
               (Inr (learn_mac_location s m p net)))"

section \<open>Event handlers\<close>

definition handle_switch_LinkDiscoveryEvent ::
  "link_discovery_event \<Rightarrow> network \<Rightarrow> error option \<times> network" where
  "handle_switch_LinkDiscoveryEvent event net =
     (case get_switch net (local_switch event) of
        None \<Rightarrow> (Some (UnknownLocalSwitch (local_switch event)), net)
      | Some loc \<Rightarrow>
          (case get_switch net (remote_dpid event) of
             None \<Rightarrow> (Some (UnknownRemoteSwitch (remote_dpid event)), net)
           | Some rem \<Rightarrow>
               let net1 = add_link (dpid loc) (local_port event) (dpid rem) (remote_port event) net;
                   r1 = (case root net1 of
                           None \<Rightarrow> dpid loc
                         | Some r \<Rightarrow> if dpid loc < r then dpid loc else r);
                   r2 = (if dpid rem < r1 then dpid rem else r1)
               in rebuild_spanning_tree None (net1\<lparr>root := Some r2\<rparr>)))"

definition handle_switch_UnknownPacketSourceEvent ::
  "nat \<Rightarrow> unknown_packet_source_event \<Rightarrow> network \<Rightarrow> error + network" where
  "handle_switch_UnknownPacketSourceEvent limit event net =
     teach_mac_location limit net (event_switch event) (packet_src event) (in_port event)"

text \<open>Events are processed one at a time, in arrival order; a failed event stops the run.\<close>

fun process_events :: "link_discovery_event list \<Rightarrow> network \<Rightarrow> error + network" where
  "process_events [] net = Inr net"
| "process_events (event # events) net =
     (case handle_switch_LinkDiscoveryEvent event net of
        (Some e, net') \<Rightarrow> Inl e
      | (None, net') \<Rightarrow> process_events events net')"

text \<open>
  The network after \<^verbatim>\<open>SpanningTreeNetwork.__init__\<close> and the connection of the given
  switches: no root, no links.
\<close>

definition new_switch :: "dpid \<Rightarrow> lldp_switch" where
  "new_switch d = \<lparr>dpid = d, links = [], mac_table = Map.empty\<rparr>"

definition no_link :: link where
  "no_link = \<lparr>owner = 0, port = 0, switch = 0, peer_port = 0, active = False, reverse = 0\<rparr>"

definition init_network :: "dpid list \<Rightarrow> network" where
  "init_network ds =
     \<lparr>switches = map new_switch ds, root = None, heap = (\<lambda>_. no_link), next_link = 0\<rparr>"

definition discovery :: "dpid \<Rightarrow> port \<Rightarrow> dpid \<Rightarrow> port \<Rightarrow> link_discovery_event" where
  "discovery a p b q = \<lparr>local_switch = a, local_port = p, remote_dpid = b, remote_port = q\<rparr>"

text \<open>The switches that appear as an endpoint of one of the events.\<close>

definition endpoints :: "link_discovery_event list \<Rightarrow> dpid set" where
  "endpoints events = local_switch ` set events \<union> remote_dpid ` set events"

section \<open>The link classification of the rebuild\<close>

text \<open>
  The heap the classification loop leaves is the heap it started from with the best links
  activated: \<open>flagged h B\<close>.
\<close>

definition flagged :: "(link_id \<Rightarrow> link) \<Rightarrow> link_id set \<Rightarrow> (link_id \<Rightarrow> link)" where
  "flagged h B = (\<lambda>l. if l \<in> B then (h l)\<lparr>active := True\<rparr> else h l)"

text \<open>
  \<open>paired h L\<close>: on the links of \<open>L\<close>, taking the reverse stays in \<open>L\<close> and is an
  involution. \<open>closed_under h S\<close>: \<open>S\<close> holds the reverse of each of its links.
\<close>

definition paired :: "(link_id \<Rightarrow> link) \<Rightarrow> link_id set \<Rightarrow> bool" where
  "paired h L \<longleftrightarrow> (\<forall>x\<in>L. reverse (h x) \<in> L \<and> reverse (h (reverse (h x))) = x)"

definition closed_under :: "(link_id \<Rightarrow> link) \<Rightarrow> link_id set \<Rightarrow> bool" where
  "closed_under h S \<longleftrightarrow> (\<forall>x\<in>S. reverse (h x) \<in> S)"

definition marks_inv :: "(link_id \<Rightarrow> link) \<Rightarrow> link_id set \<Rightarrow> marks \<Rightarrow> bool" where
  "marks_inv h L m \<longleftrightarrow>
     store m = flagged h (best_links m) \<and> best_links m \<subseteq> L \<and> links_to_deactivate m \<subseteq> L \<and>
     closed_under h (best_links m) \<and> closed_under h (links_to_deactivate m)"

definition all_links :: "network \<Rightarrow> link_id set" where
  "all_links net = (\<Union>sw \<in> set (switches net). set (links sw))"

text \<open>
  The data-model invariants of the spec: dpids identify switches; a Link in a switch's list
  is owned by that switch, its reverse is a Link of the neighbour switch that points back,
  and the reverse of the reverse is the Link itself.
\<close>

definition well_formed :: "network \<Rightarrow> bool" where
  "well_formed net \<longleftrightarrow>
     distinct (map dpid (switches net)) \<and>
     (\<forall>sw \<in> set (switches net). \<forall>l \<in> set (links sw).
        owner (heap net l) = dpid sw \<and>
        reverse (heap net (reverse (heap net l))) = l \<and>
        switch (heap net (reverse (heap net l))) = dpid sw \<and>
        (\<exists>sw' \<in> set (switches net).
           dpid sw' = switch (heap net l) \<and> reverse (heap net l) \<in> set (links sw')))"

definition symmetric_flags :: "network \<Rightarrow> bool" where
  "symmetric_flags net \<longleftrightarrow>
     (\<forall>sw \<in> set (switches net). \<forall>l \<in> set (links sw).
        active (heap net l) = active (heap net (reverse (heap net l))))"

text \<open>Two heaps with the same neighbour and reverse references (the flags may differ).\<close>

definition same_shape :: "(link_id \<Rightarrow> link) \<Rightarrow> (link_id \<Rightarrow> link) \<Rightarrow> bool" where
  "same_shape h h' \<longleftrightarrow> (\<forall>x. switch (h' x) = switch (h x) \<and> reverse (h' x) = reverse (h x))"

definition marks_agree :: "(link_id \<Rightarrow> link) \<Rightarrow> (link_id \<Rightarrow> link) \<Rightarrow> marks \<Rightarrow> marks \<Rightarrow> bool" where
  "marks_agree h h' m m' \<longleftrightarrow>
     store m = flagged h (best_links m) \<and> store m' = flagged h' (best_links m') \<and>
     best_links m' = best_links m \<and> links_to_deactivate m' = links_to_deactivate m"

section \<open>Scope of the rebuild\<close>

text \<open>
  The switches a switch has a known link to, and connection by known links (any number of
  hops), whatever the active flags.
\<close>

definition neighbours :: "network \<Rightarrow> dpid \<Rightarrow> dpid list" where
  "neighbours net d =
     (case get_switch net d of None \<Rightarrow> [] | Some sw \<Rightarrow> map (\<lambda>x. switch (heap net x)) (links sw))"

definition link_edges :: "network \<Rightarrow> (dpid \<times> dpid) set" where
  "link_edges net = {(a, b). b \<in> set (neighbours net a)}"

definition connected :: "network \<Rightarrow> dpid \<Rightarrow> dpid \<Rightarrow> bool" where
  "connected net a b \<longleftrightarrow> (a, b) \<in> (link_edges net)\<^sup>*"

text \<open>
  The example of the spec: switches 1, 2, 3 with links 1-2 and 2-3, and switch 4 with no
  link, as the two discovery events leave them before the rebuild.
\<close>

definition line_network :: network where
  "line_network =
     (add_link 2 2 3 1 (add_link 1 1 2 1 (init_network [1, 2, 3, 4])))\<lparr>root := Some 1\<rparr>"

text \<open>Two islands: links 1-2 and 3-4, root 1.\<close>

definition island_network :: network where
  "island_network =
     (add_link 3 1 4 1 (add_link 1 1 2 1 (init_network [1, 2, 3, 4])))\<lparr>root := Some 1\<rparr>"

section \<open>Parallel links\<close>

text \<open>Two switches joined by two links, on ports 1 and 2 of both.\<close>

definition parallel_network :: network where
  "parallel_network =
     (add_link 1 2 2 2 (add_link 1 1 2 1 (init_network [1, 2])))\<lparr>root := Some 1\<rparr>"

section \<open>What the propagation reads and writes\<close>

text \<open>
  \<^verbatim>\<open>_teach_mac_location\<close> reads the link lists and the Link objects and writes MAC tables
  only. \<open>links_of\<close> is \<^verbatim>\<open>switch.links\<close>, \<open>lookup_mac\<close> the table entry of a switch,
  \<open>followed\<close> the list the loop at line 97 walks: the active links of the switch whose
  port differs from the port argument.
\<close>

definition links_of :: "network \<Rightarrow> dpid \<Rightarrow> link_id list option" where
  "links_of net d = map_option links (get_switch net d)"

definition lookup_mac :: "network \<Rightarrow> dpid \<Rightarrow> mac \<Rightarrow> port option" where
  "lookup_mac net d m = (case get_switch net d of None \<Rightarrow> None | Some sw \<Rightarrow> mac_table sw m)"

definition followed :: "network \<Rightarrow> dpid \<Rightarrow> port \<Rightarrow> link_id list" where
  "followed net s p =
     (case links_of net s of
        None \<Rightarrow> []
      | Some ls \<Rightarrow> filter (\<lambda>x. port (heap net x) \<noteq> p \<and> active (heap net x)) ls)"

text \<open>
  A chain of nested calls, as the list of the links it follows: the first link is followed
  by the call on \<open>s\<close> with port \<open>p\<close>, each next one by the call on the neighbour with the
  port of the reverse link. \<open>arrival\<close> is the (switch, port) pair the last call of the chain
  is made with, \<open>arrivals\<close> all the pairs some chain ends with.
\<close>

fun teach_path :: "network \<Rightarrow> dpid \<Rightarrow> port \<Rightarrow> link_id list \<Rightarrow> bool" where
  "teach_path net s p [] = True"
| "teach_path net s p (l # w) =
     (l \<in> set (followed net s p) \<and>
      teach_path net (switch (heap net l)) (port (heap net (reverse (heap net l)))) w)"

fun arrival :: "network \<Rightarrow> dpid \<Rightarrow> port \<Rightarrow> link_id list \<Rightarrow> dpid \<times> port" where
  "arrival net s p [] = (s, p)"
| "arrival net s p (l # w) =
     arrival net (switch (heap net l)) (port (heap net (reverse (heap net l)))) w"

definition arrivals :: "network \<Rightarrow> dpid \<Rightarrow> port \<Rightarrow> (dpid \<times> port) set" where
  "arrivals net s p = {a. \<exists>w. teach_path net s p w \<and> arrival net s p w = a}"

definition same_topology :: "network \<Rightarrow> network \<Rightarrow> bool" where
  "same_topology net net' \<longleftrightarrow> heap net' = heap net \<and> links_of net' = links_of net"

text \<open>
  \<open>closed_links\<close>: every link of a switch leads to a switch with a link list.
  \<open>unique_arrival\<close>: the chains from \<open>(s, p)\<close> that end at the same switch end with the
  same port.
  \<open>taught net net' m A\<close>: \<open>net'\<close> is \<open>net\<close> with the table entry for \<open>m\<close> set to \<open>q\<close> at
  each switch \<open>t\<close> with \<open>(t, q)\<close> in \<open>A\<close>, and nothing else read by the propagation changed.
\<close>

definition closed_links :: "network \<Rightarrow> bool" where
  "closed_links net \<longleftrightarrow>
     (\<forall>x ls. links_of net x = Some ls \<longrightarrow>
        (\<forall>l \<in> set ls. links_of net (switch (heap net l)) \<noteq> None))"

definition unique_arrival :: "network \<Rightarrow> dpid \<Rightarrow> port \<Rightarrow> bool" where
  "unique_arrival net s p \<longleftrightarrow>
     (\<forall>t q q'. (t, q) \<in> arrivals net s p \<and> (t, q') \<in> arrivals net s p \<longrightarrow> q = q')"

definition taught :: "network \<Rightarrow> network \<Rightarrow> mac \<Rightarrow> (dpid \<times> port) set \<Rightarrow> bool" where
  "taught net net' m A \<longleftrightarrow>
     same_topology net net' \<and>
     (\<forall>t q. (t, q) \<in> A \<longrightarrow> lookup_mac net' t m = Some q) \<and>
     (\<forall>t. t \<notin> fst ` A \<longrightarrow> lookup_mac net' t m = lookup_mac net t m)"

section \<open>The active links as a graph\<close>

text \<open>
  A walk is a list of active links, each starting where the previous one ends. It is
  non-backtracking when no link is followed by its own reverse. The active links are
  acyclic (a forest; a tree on each connected part) when no non-empty non-backtracking walk
  returns to its start: this excludes self loops, parallel links and longer cycles.
  \<open>path_bound net d\<close>: no walk that visits a switch at most once has more than \<open>d\<close> links;
  the least such \<open>d\<close> is the length of the longest path, the diameter of a tree.
\<close>

definition active_links :: "network \<Rightarrow> dpid \<Rightarrow> link_id list" where
  "active_links net s =
     (case links_of net s of None \<Rightarrow> [] | Some ls \<Rightarrow> filter (\<lambda>x. active (heap net x)) ls)"

fun active_walk :: "network \<Rightarrow> dpid \<Rightarrow> link_id list \<Rightarrow> bool" where
  "active_walk net v [] = True"
| "active_walk net v (l # w) =
     (l \<in> set (active_links net v) \<and> active_walk net (switch (heap net l)) w)"

fun walk_end :: "network \<Rightarrow> dpid \<Rightarrow> link_id list \<Rightarrow> dpid" where
  "walk_end net v [] = v"
| "walk_end net v (l # w) = walk_end net (switch (heap net l)) w"

fun non_backtracking :: "network \<Rightarrow> link_id list \<Rightarrow> bool" where
  "non_backtracking net [] = True"
| "non_backtracking net [l] = True"
| "non_backtracking net (l # l' # w) =
     (l' \<noteq> reverse (heap net l) \<and> non_backtracking net (l' # w))"

definition acyclic_active :: "network \<Rightarrow> bool" where
  "acyclic_active net \<longleftrightarrow>
     (\<forall>v w. w \<noteq> [] \<and> active_walk net v w \<and> non_backtracking net w \<longrightarrow> walk_end net v w \<noteq> v)"

definition walk_vertices :: "network \<Rightarrow> dpid \<Rightarrow> link_id list \<Rightarrow> dpid list" where
  "walk_vertices net v w = v # map (\<lambda>l. switch (heap net l)) w"

definition path_bound :: "network \<Rightarrow> nat \<Rightarrow> bool" where
  "path_bound net d \<longleftrightarrow>
     (\<forall>v w. active_walk net v w \<and> distinct (walk_vertices net v w) \<longrightarrow> length w \<le> d)"

definition reversal :: "network \<Rightarrow> link_id list \<Rightarrow> link_id list" where
  "reversal net w = map (\<lambda>l. reverse (heap net l)) (rev w)"

text \<open>No switch has two active links on one local port.\<close>

definition ports_distinct :: "network \<Rightarrow> bool" where
  "ports_distinct net \<longleftrightarrow>
     (\<forall>sw \<in> set (switches net).
        distinct (map (\<lambda>x. port (heap net x)) (filter (\<lambda>x. active (heap net x)) (links sw))))"

section \<open>The example of the spec, after the rebuild\<close>

text \<open>Links 1-2 and 2-3 active in both directions; switch 4 has no link.\<close>

definition line_tree :: network where
  "line_tree = snd (rebuild_spanning_tree None line_network)"

text \<open>
  Switches 1 and 3 both discovered behind port 1 of switch 2 (a shared segment): links 1-2
  and 3-2, before and after the rebuild.
\<close>

definition shared_port_network :: network where
  "shared_port_network =
     (add_link 3 1 2 1 (add_link 1 1 2 1 (init_network [1, 2, 3])))\<lparr>root := Some 1\<rparr>"

definition shared_port_tree :: network where
  "shared_port_tree = snd (rebuild_spanning_tree None shared_port_network)"


section \<open>The invariants hold in every state the events produce\<close>

text \<open>
  \<open>allocated\<close>: the links in use were handed out by \<open>add_link\<close>. A network is consistent
  when it is well formed, allocated and its flags are symmetric.
\<close>

definition allocated :: "network \<Rightarrow> bool" where
  "allocated net \<longleftrightarrow> (\<forall>sw \<in> set (switches net). \<forall>l \<in> set (links sw). l < next_link net)"

definition consistent :: "network \<Rightarrow> bool" where
  "consistent net \<longleftrightarrow> well_formed net \<and> allocated net \<and> symmetric_flags net"

definition with_links :: "dpid \<Rightarrow> link_id \<Rightarrow> dpid \<Rightarrow> link_id \<Rightarrow> lldp_switch \<Rightarrow> lldp_switch" where
  "with_links a l b r sw =
     sw\<lparr>links := links sw @ (if dpid sw = a then [l] else []) @ (if dpid sw = b then [r] else [])\<rparr>"

section \<open>Propagation over parallel links\<close>

text \<open>
  The network the rebuild leaves on two parallel links is not a tree, and the propagation,
  which has no visited set, never returns on it: from switch 1 it goes over port 1 to
  switch 2, from there over port 2 back to switch 1, and so on, whatever the number of
  nested calls allowed.
\<close>

definition parallel_tree :: network where
  "parallel_tree = snd (rebuild_spanning_tree None parallel_network)"

section \<open>Root selection\<close>

lemma get_switch_SomeD:
  "get_switch net d = Some sw \<Longrightarrow> sw \<in> set (switches net) \<and> dpid sw = d"
  unfolding get_switch_def by (auto simp: find_Some_iff)

lemma root_add_link: "root (add_link a p b q net) = root net"
  by (simp add: add_link_def Let_def split: option.splits)

lemma root_rebuild_spanning_tree: "root (snd (rebuild_spanning_tree s net)) = root net"
  by (auto simp: rebuild_spanning_tree_def split: option.splits sum.splits prod.splits)

lemma root_handle:
  assumes "handle_switch_LinkDiscoveryEvent event net = (None, net')"
  shows "root net' = Some (Min ({local_switch event, remote_dpid event} \<union> set_option (root net)))"
proof -
  from assms obtain loc rem where
    l: "get_switch net (local_switch event) = Some loc" and
    r: "get_switch net (remote_dpid event) = Some rem"
    by (auto simp: handle_switch_LinkDiscoveryEvent_def split: option.splits)
  have dl: "dpid loc = local_switch event" and dr: "dpid rem = remote_dpid event"
    using get_switch_SomeD[OF l] get_switch_SomeD[OF r] by auto
  let ?net1 = "add_link (dpid loc) (local_port event) (dpid rem) (remote_port event) net"
  let ?r1 = "case root ?net1 of None \<Rightarrow> dpid loc | Some r \<Rightarrow> if dpid loc < r then dpid loc else r"
  let ?r2 = "if dpid rem < ?r1 then dpid rem else ?r1"
  have "net' = snd (rebuild_spanning_tree None (?net1\<lparr>root := Some ?r2\<rparr>))"
    using assms l r by (simp add: handle_switch_LinkDiscoveryEvent_def Let_def)
  then have "root net' = Some ?r2"
    by (simp add: root_rebuild_spanning_tree)
  moreover have "?r2 = Min ({local_switch event, remote_dpid event} \<union> set_option (root net))"
    by (cases "root net") (auto simp: root_add_link dl dr min_def)
  ultimately show ?thesis by simp
qed

lemma root_process_events:
  "process_events events net = Inr net' \<Longrightarrow> events \<noteq> [] \<Longrightarrow>
   root net' = Some (Min (endpoints events \<union> set_option (root net)))"
proof (induction events arbitrary: net)
  case Nil
  then show ?case by simp
next
  case (Cons event events)
  from Cons.prems(1) obtain net1 where
    h: "handle_switch_LinkDiscoveryEvent event net = (None, net1)" and
    p: "process_events events net1 = Inr net'"
    by (auto split: prod.splits option.splits)
  note r1 = root_handle[OF h]
  let ?A = "{local_switch event, remote_dpid event} \<union> set_option (root net)"
  show ?case
  proof (cases "events = []")
    case True
    have "endpoints [event] = {local_switch event, remote_dpid event}"
      by (auto simp: endpoints_def)
    with True p r1 show ?thesis by simp
  next
    case False
    have fin: "finite (endpoints events)" by (simp add: endpoints_def)
    have ne: "endpoints events \<noteq> {}" using False by (simp add: endpoints_def)
    from Cons.IH[OF p False] r1
    have "root net' = Some (Min (insert (Min ?A) (endpoints events)))"
      by simp
    also have "Min (insert (Min ?A) (endpoints events))
        = Min (endpoints (event # events) \<union> set_option (root net))"
    proof -
      have "endpoints (event # events) \<union> set_option (root net) = ?A \<union> endpoints events"
        by (auto simp: endpoints_def)
      moreover have "Min (?A \<union> endpoints events) = min (Min ?A) (Min (endpoints events))"
        by (rule Min_Un) (use fin ne in auto)
      moreover have "Min (insert (Min ?A) (endpoints events)) = min (Min ?A) (Min (endpoints events))"
        using fin ne by simp
      ultimately show ?thesis by simp
    qed
    finally show ?thesis .
  qed
qed

text \<open>
  C8. After a non-empty sequence of successfully processed link-discovery events, the root
  is the least dpid among the endpoints of the events (and the root held before, if any):
  the first event sets it, and afterwards it is never unset nor replaced by a larger dpid.
\<close>

theorem root_is_minimum_endpoint:
  assumes "process_events events net = Inr net'" and "events \<noteq> []"
  shows "root net' = Some (Min (endpoints events \<union> set_option (root net))) \<and>
         (root net = None \<longrightarrow> root net' = Some (Min (endpoints events))) \<and>
         (\<forall>r. root net = Some r \<longrightarrow> (\<exists>r'. root net' = Some r' \<and> r' \<le> r))"
proof -
  have fin: "finite (endpoints events \<union> set_option (root net))"
    by (simp add: endpoints_def)
  have main: "root net' = Some (Min (endpoints events \<union> set_option (root net)))"
    by (rule root_process_events[OF assms])
  moreover have "root net = None \<longrightarrow> root net' = Some (Min (endpoints events))"
    using main by simp
  moreover have "\<forall>r. root net = Some r \<longrightarrow> (\<exists>r'. root net' = Some r' \<and> r' \<le> r)"
    using main fin by auto
  ultimately show ?thesis by blast
qed

theorem root_is_minimum_endpoint_witness:
  "\<exists>net'. process_events [discovery 3 1 2 1, discovery 2 2 1 1] (init_network [1, 2, 3]) = Inr net'
      \<and> root net' = Some 1"
proof -
  let ?E = "[discovery 3 1 2 1, discovery 2 2 1 1]"
  have "\<not> isl (process_events ?E (init_network [1, 2, 3]))"
    by code_simp
  then obtain net' where p: "process_events ?E (init_network [1, 2, 3]) = Inr net'"
    by (cases "process_events ?E (init_network [1, 2, 3])") auto
  have ne: "?E \<noteq> []" by simp
  have r0: "root (init_network [1, 2, 3]) = None" by (simp add: init_network_def)
  have "Min (endpoints ?E) = 1" by (simp add: endpoints_def discovery_def)
  with root_is_minimum_endpoint[OF p ne] r0 have "root net' = Some 1" by simp
  with p show ?thesis by blast
qed

section \<open>Failure of the handlers\<close>

text \<open>
  C6. A link-discovery event that names a local or a remote switch unknown to the network
  raises, and leaves the network as it was: no link is added, the root is not updated and
  no rebuild runs.
\<close>

theorem unknown_endpoint_raises_unchanged:
  assumes "get_switch net (local_switch event) = None \<or> get_switch net (remote_dpid event) = None"
  shows "handle_switch_LinkDiscoveryEvent event net =
           (Some (if get_switch net (local_switch event) = None
                  then UnknownLocalSwitch (local_switch event)
                  else UnknownRemoteSwitch (remote_dpid event)), net)"
  using assms by (auto simp: handle_switch_LinkDiscoveryEvent_def split: option.splits)

theorem unknown_endpoint_raises_unchanged_witness:
  "get_switch (init_network [1, 2]) (remote_dpid (discovery 1 1 99 1)) = None \<and>
   handle_switch_LinkDiscoveryEvent (discovery 1 1 99 1) (init_network [1, 2])
     = (Some (UnknownRemoteSwitch 99), init_network [1, 2])"
proof -
  have h: "get_switch (init_network [1, 2]) (remote_dpid (discovery 1 1 99 1)) = None"
    by (simp add: get_switch_def init_network_def new_switch_def discovery_def)
  have l: "get_switch (init_network [1, 2]) (local_switch (discovery 1 1 99 1)) \<noteq> None"
    by (simp add: get_switch_def init_network_def new_switch_def discovery_def)
  from unknown_endpoint_raises_unchanged[of "init_network [1, 2]" "discovery 1 1 99 1"] h l
  show ?thesis by (simp add: discovery_def)
qed

text \<open>
  C7, as the claim states it, fails: a rebuild with no start and no root does not return
  normally.
\<close>

theorem rebuild_without_root_counterexample:
  "rebuild_spanning_tree None (init_network [1]) \<noteq> (None, init_network [1])"
  by (simp add: rebuild_spanning_tree_def init_network_def)

text \<open>
  C7, amended. A rebuild with no start and no root changes nothing, and raises (the first
  \<^verbatim>\<open>switch.links\<close> of the sweep is evaluated on \<^verbatim>\<open>None\<close>).
\<close>

theorem rebuild_without_root_raises:
  "root net = None \<Longrightarrow> rebuild_spanning_tree None net = (Some AttributeError, net)"
  by (simp add: rebuild_spanning_tree_def)

theorem rebuild_without_root_raises_witness:
  "root (init_network [1, 2]) = None \<and>
   rebuild_spanning_tree None (init_network [1, 2]) = (Some AttributeError, init_network [1, 2])"
proof -
  have h: "root (init_network [1, 2]) = None" by (simp add: init_network_def)
  from rebuild_without_root_raises[OF h] h show ?thesis by simp
qed

section \<open>The link classification of the rebuild: properties\<close>

text \<open>
  Deactivating the links of the set one after the other, in any order, is what
  \<open>deactivate_all\<close> does.
\<close>

lemma fold_deactivate: "fold deactivate xs h = deactivate_all (set xs) h"
proof (induction xs arbitrary: h)
  case Nil
  then show ?case by (simp add: deactivate_all_def)
next
  case (Cons x xs)
  have "deactivate_all (set xs) (deactivate x h) = deactivate_all (set (x # xs)) h"
    by (rule ext) (simp add: deactivate_all_def deactivate_def)
  with Cons show ?case by simp
qed

lemma flagged_empty: "flagged h {} = h"
  by (simp add: flagged_def)

lemma activate_flagged:
  "activate r (activate l (flagged h B)) = flagged h (insert r (insert l B))"
  by (rule ext) (simp add: activate_def flagged_def)

lemma flagged_fields [simp]:
  "switch (flagged h B x) = switch (h x)" "reverse (flagged h B x) = reverse (h x)"
  "owner (flagged h B x) = owner (h x)" "port (flagged h B x) = port (h x)"
  by (simp_all add: flagged_def)

lemma mark_links_store:
  "store m = flagged h (best_links m) \<Longrightarrow>
   store (mark_links b ls m) = flagged h (best_links (mark_links b ls m))"
proof (induction ls arbitrary: m)
  case Nil
  then show ?case by simp
next
  case (Cons l ls)
  show ?case
    using Cons.prems
    by (simp add: Let_def Cons.IH activate_flagged)
qed

lemma mark_paths_store:
  "store m = flagged h (best_links m) \<Longrightarrow>
   store (snd (mark_paths net ps m)) = flagged h (best_links (snd (mark_paths net ps m)))"
proof (induction net ps m rule: mark_paths.induct)
  case (1 net m)
  then show ?case by simp
next
  case (2 net n ps m)
  then show ?case by simp
next
  case (3 net n b ps m)
  then show ?case
    by (auto split: option.splits simp: mark_links_store)
qed

lemma closed_under_insert:
  assumes "paired h L" "l \<in> L" "closed_under h S"
  shows "closed_under h (insert (reverse (h l)) (insert l S))"
  using assms unfolding paired_def closed_under_def by auto

lemma closed_under_remove:
  assumes "paired h L" "l \<in> L" "S \<subseteq> L" "closed_under h S"
  shows "closed_under h (S - {l} - {reverse (h l)})"
  unfolding closed_under_def
proof
  fix x assume x: "x \<in> S - {l} - {reverse (h l)}"
  then have xS: "x \<in> S" and xl: "x \<noteq> l" and xr: "x \<noteq> reverse (h l)" by auto
  have xL: "x \<in> L" using xS assms(3) by auto
  have inv_x: "reverse (h (reverse (h x))) = x" using assms(1) xL by (simp add: paired_def)
  have inv_l: "reverse (h (reverse (h l))) = l" using assms(1,2) by (simp add: paired_def)
  have "reverse (h x) \<in> S" using assms(4) xS by (simp add: closed_under_def)
  moreover have "reverse (h x) \<noteq> l" using inv_x xr by auto
  moreover have "reverse (h x) \<noteq> reverse (h l)" using inv_x inv_l xl by metis
  ultimately show "reverse (h x) \<in> S - {l} - {reverse (h l)}" by simp
qed

lemma mark_links_inv:
  assumes "paired h L"
  shows "set ls \<subseteq> L \<Longrightarrow> marks_inv h L m \<Longrightarrow> marks_inv h L (mark_links b ls m)"
proof (induction ls arbitrary: m)
  case Nil
  then show ?case by simp
next
  case (Cons l ls)
  from Cons.prems have l: "l \<in> L" and ls: "set ls \<subseteq> L" by auto
  from Cons.prems(2) have st: "store m = flagged h (best_links m)"
    and bL: "best_links m \<subseteq> L" and dL: "links_to_deactivate m \<subseteq> L"
    and bc: "closed_under h (best_links m)" and dc: "closed_under h (links_to_deactivate m)"
    by (simp_all add: marks_inv_def)
  have rv: "reverse (store m l) = reverse (h l)" by (simp add: st)
  have rL: "reverse (h l) \<in> L" using assms l by (simp add: paired_def)
  let ?r = "reverse (h l)"
  have act: "marks_inv h L
      (m\<lparr>store := activate ?r (activate l (store m)),
         best_links := insert ?r (insert l (best_links m)),
         links_to_deactivate := links_to_deactivate m - {l} - {?r}\<rparr>)"
    unfolding marks_inv_def
    using st bL dL l rL closed_under_insert[OF assms l bc] closed_under_remove[OF assms l dL dc]
    by (auto simp: activate_flagged)
  have deact: "marks_inv h L
      (m\<lparr>links_to_deactivate := insert ?r (insert l (links_to_deactivate m))\<rparr>)"
    unfolding marks_inv_def
    using st bL dL l rL bc closed_under_insert[OF assms l dc]
    by auto
  show ?case
    using Cons.IH[OF ls act] Cons.IH[OF ls deact] Cons.IH[OF ls Cons.prems(2)]
    by (simp add: Let_def rv)
qed

lemma get_switch_links_subset:
  "get_switch net d = Some sw \<Longrightarrow> set (links sw) \<subseteq> all_links net"
  using get_switch_SomeD[of net d sw] by (auto simp: all_links_def)

lemma mark_paths_inv:
  "paired h (all_links net) \<Longrightarrow> marks_inv h (all_links net) m \<Longrightarrow>
   marks_inv h (all_links net) (snd (mark_paths net ps m))"
proof (induction net ps m rule: mark_paths.induct)
  case (1 net m)
  then show ?case by simp
next
  case (2 net n ps m)
  then show ?case by simp
next
  case (3 net n b ps m)
  show ?case
  proof (cases "get_switch net n")
    case None
    then show ?thesis using 3 by simp
  next
    case (Some sw)
    have "marks_inv h (all_links net) (mark_links b (links sw) m)"
      by (rule mark_links_inv[OF "3.prems"(1) get_switch_links_subset[OF Some] "3.prems"(2)])
    from "3.IH"[OF Some "3.prems"(1) this] Some show ?thesis by simp
  qed
qed

lemma well_formed_paired: "well_formed net \<Longrightarrow> paired (heap net) (all_links net)"
  unfolding well_formed_def paired_def all_links_def by fastforce

lemma symmetric_flags_iff:
  "symmetric_flags net \<longleftrightarrow>
     (\<forall>l \<in> all_links net. active (heap net l) = active (heap net (reverse (heap net l))))"
  by (auto simp: symmetric_flags_def all_links_def)

lemma closed_under_iff:
  assumes "paired h L" "closed_under h S" "l \<in> L"
  shows "reverse (h l) \<in> S \<longleftrightarrow> l \<in> S"
  using assms unfolding paired_def closed_under_def by metis

lemma deactivate_all_fields [simp]:
  "switch (deactivate_all D h x) = switch (h x)" "reverse (deactivate_all D h x) = reverse (h x)"
  "owner (deactivate_all D h x) = owner (h x)" "port (deactivate_all D h x) = port (h x)"
  by (simp_all add: deactivate_all_def)

lemma active_flagged: "active (flagged h B x) \<longleftrightarrow> x \<in> B \<or> active (h x)"
  by (simp add: flagged_def)

lemma active_deactivate_all: "active (deactivate_all D h x) \<longleftrightarrow> x \<notin> D \<and> active (h x)"
  by (simp add: deactivate_all_def)

lemma marks_symmetric:
  assumes p: "paired h L" and inv: "marks_inv h L m"
    and sym: "\<forall>l \<in> L. active (h l) = active (h (reverse (h l)))"
    and l: "l \<in> L"
  shows "active (store m l) = active (store m (reverse (store m l)))"
    and "active (deactivate_all (links_to_deactivate m) (store m) l)
           = active (deactivate_all (links_to_deactivate m) (store m)
                       (reverse (deactivate_all (links_to_deactivate m) (store m) l)))"
proof -
  from inv have st: "store m = flagged h (best_links m)"
    and bc: "closed_under h (best_links m)" and dc: "closed_under h (links_to_deactivate m)"
    by (simp_all add: marks_inv_def)
  have b: "reverse (h l) \<in> best_links m \<longleftrightarrow> l \<in> best_links m"
    by (rule closed_under_iff[OF p bc l])
  have d: "reverse (h l) \<in> links_to_deactivate m \<longleftrightarrow> l \<in> links_to_deactivate m"
    by (rule closed_under_iff[OF p dc l])
  have s: "active (h l) = active (h (reverse (h l)))" using sym l by simp
  show "active (store m l) = active (store m (reverse (store m l)))"
    using b s by (simp add: st active_flagged)
  show "active (deactivate_all (links_to_deactivate m) (store m) l)
           = active (deactivate_all (links_to_deactivate m) (store m)
                       (reverse (deactivate_all (links_to_deactivate m) (store m) l)))"
    using b d s by (simp add: st active_flagged active_deactivate_all)
qed

lemma marks_inv_init: "marks_inv h L \<lparr>store = h, best_links = {}, links_to_deactivate = {}\<rparr>"
  by (simp add: marks_inv_def flagged_empty closed_under_def)

lemma symmetric_flags_rebuild:
  assumes wf: "well_formed net" and sym: "symmetric_flags net"
  shows "symmetric_flags (snd (rebuild_spanning_tree start net))"
proof -
  let ?L = "all_links net"
  let ?m0 = "\<lparr>store = heap net, best_links = {}, links_to_deactivate = {}\<rparr>"
  have p: "paired (heap net) ?L" by (rule well_formed_paired[OF wf])
  have s: "\<forall>l \<in> ?L. active (heap net l) = active (heap net (reverse (heap net l)))"
    using sym by (simp add: symmetric_flags_iff)
  have inv: "marks_inv (heap net) ?L (snd (mark_paths net ps ?m0))" for ps
    by (rule mark_paths_inv[OF p marks_inv_init])
  have a: "symmetric_flags (net\<lparr>heap := store (snd (mark_paths net ps ?m0))\<rparr>)" for ps
    unfolding symmetric_flags_iff
    using marks_symmetric(1)[OF p inv s] by (simp add: all_links_def)
  have b: "symmetric_flags (net\<lparr>heap := deactivate_all
              (links_to_deactivate (snd (mark_paths net ps ?m0)))
              (store (snd (mark_paths net ps ?m0)))\<rparr>)" for ps
    unfolding symmetric_flags_iff
    using marks_symmetric(2)[OF p inv s] by (simp add: all_links_def)
  have a': "symmetric_flags (net\<lparr>heap := store m\<rparr>)"
    if "mark_paths net ps ?m0 = (e, m)" for ps e m
    using a[of ps] that by simp
  have b': "symmetric_flags (net\<lparr>heap := deactivate_all (links_to_deactivate m) (store m)\<rparr>)"
    if "mark_paths net ps ?m0 = (e, m)" for ps e m
    using b[of ps] that by simp
  show ?thesis
    unfolding rebuild_spanning_tree_def
    using sym
    by (auto split: option.splits sum.splits prod.splits intro: a' b')
qed

lemma get_switch_cong: "switches net' = switches net \<Longrightarrow> get_switch net' d = get_switch net d"
  by (simp add: get_switch_def)

lemma sweep_cong:
  "switches net' = switches net \<Longrightarrow> same_shape (heap net) (heap net') \<Longrightarrow>
   sweep net' sws added i = sweep net sws added i"
proof (induction net sws added i rule: sweep.induct)
  case (1 net sws added i)
  have g: "get_switch net' d = get_switch net d" for d
    by (rule get_switch_cong[OF "1.prems"(1)])
  have sw: "switch (heap net' x) = switch (heap net x)" for x
    using "1.prems"(2) by (simp add: same_shape_def)
  show ?case
  proof (cases "i < length sws")
    case False
    then show ?thesis by (simp add: sweep.simps)
  next
    case True
    show ?thesis
    proof (cases "get_switch net (sws ! i)")
      case None
      then show ?thesis using True by (simp add: sweep.simps[of _ sws added i] g)
    next
      case (Some sw')
      from "1.IH"[OF True Some "1.prems"] True Some
      show ?thesis by (simp add: sweep.simps[of _ sws added i] g sw)
    qed
  qed
qed

lemma build_nodes_cong:
  "switches net' = switches net \<Longrightarrow> same_shape (heap net) (heap net') \<Longrightarrow>
   build_nodes net' names ds = build_nodes net names ds"
proof (induction ds)
  case Nil
  then show ?case by simp
next
  case (Cons d ds)
  have sw: "switch (heap net' x) = switch (heap net x)" for x
    using Cons.prems(2) by (simp add: same_shape_def)
  show ?case
    using Cons.IH[OF Cons.prems]
    by (simp add: get_switch_cong[OF Cons.prems(1)] sw split: option.splits sum.splits)
qed

lemma mark_links_agree:
  assumes "same_shape h h'"
  shows "marks_agree h h' m m' \<Longrightarrow> marks_agree h h' (mark_links b ls m) (mark_links b ls m')"
proof (induction ls arbitrary: m m')
  case Nil
  then show ?case by simp
next
  case (Cons l ls)
  from Cons.prems have st: "store m = flagged h (best_links m)"
    and st': "store m' = flagged h' (best_links m')"
    and be: "best_links m' = best_links m"
    and de: "links_to_deactivate m' = links_to_deactivate m"
    by (simp_all add: marks_agree_def)
  have rv: "reverse (store m l) = reverse (h l)" "reverse (store m' l) = reverse (h l)"
    and sw: "switch (store m l) = switch (h l)" "switch (store m' l) = switch (h l)"
    using assms by (simp_all add: st st' same_shape_def)
  let ?r = "reverse (h l)"
  have act: "marks_agree h h'
      (m\<lparr>store := activate ?r (activate l (store m)),
         best_links := insert ?r (insert l (best_links m)),
         links_to_deactivate := links_to_deactivate m - {l} - {?r}\<rparr>)
      (m'\<lparr>store := activate ?r (activate l (store m')),
         best_links := insert ?r (insert l (best_links m')),
         links_to_deactivate := links_to_deactivate m' - {l} - {?r}\<rparr>)"
    by (simp add: marks_agree_def st st' be de activate_flagged)
  have deact: "marks_agree h h'
      (m\<lparr>links_to_deactivate := insert ?r (insert l (links_to_deactivate m))\<rparr>)
      (m'\<lparr>links_to_deactivate := insert ?r (insert l (links_to_deactivate m'))\<rparr>)"
    using st st' by (simp add: marks_agree_def be de)
  show ?case
    using Cons.IH[OF act] Cons.IH[OF deact] Cons.IH[OF Cons.prems]
    by (simp add: Let_def rv sw be)
qed

lemma mark_paths_agree:
  assumes "switches net' = switches net" and "same_shape h h'"
  shows "marks_agree h h' m m' \<Longrightarrow>
     fst (mark_paths net' ps m') = fst (mark_paths net ps m) \<and>
     marks_agree h h' (snd (mark_paths net ps m)) (snd (mark_paths net' ps m'))"
proof (induction ps arbitrary: m m')
  case Nil
  then show ?case by simp
next
  case (Cons a ps)
  obtain n bo where a: "a = (n, bo)" by (cases a)
  show ?case
  proof (cases bo)
    case None
    then show ?thesis using Cons a by simp
  next
    case (Some b)
    show ?thesis
    proof (cases "get_switch net n")
      case None
      then show ?thesis
        using Cons.prems a Some by (simp add: get_switch_cong[OF assms(1)])
    next
      case (Some sw)
      from Cons.IH[OF mark_links_agree[OF assms(2) Cons.prems, of b "links sw"]]
      show ?thesis
        using a \<open>bo = Some b\<close> Some by (simp add: get_switch_cong[OF assms(1)])
    qed
  qed
qed

lemma deactivate_all_idem:
  "deactivate_all D (flagged (deactivate_all D (flagged h B)) B) = deactivate_all D (flagged h B)"
  by (rule ext) (simp add: deactivate_all_def flagged_def)

lemma flagged_idem: "flagged (flagged h B) B = flagged h B"
  by (rule ext) (simp add: flagged_def)

text \<open>
  C5. A second \<^verbatim>\<open>_rebuild_spanning_tree\<close> from the same start, run on the network the first
  one left, ends the same way and leaves that network as it is: no active flag changes.
\<close>

theorem rebuild_twice_same:
  "rebuild_spanning_tree start (snd (rebuild_spanning_tree start net))
     = rebuild_spanning_tree start net"
proof (cases "case start of None \<Rightarrow> root net | Some s \<Rightarrow> Some s")
  case None
  then have "rebuild_spanning_tree start net = (Some AttributeError, net)"
    by (simp add: rebuild_spanning_tree_def)
  then show ?thesis by simp
next
  case (Some s)
  show ?thesis
  proof (cases "sweep net [s] {} 0")
    case (Inl e)
    then have "rebuild_spanning_tree start net = (Some e, net)"
      using Some by (simp add: rebuild_spanning_tree_def)
    then show ?thesis by simp
  next
    case (Inr sws)
    show ?thesis
    proof (cases "build_nodes net sws (remdups sws)")
      case (Inl e)
      then have "rebuild_spanning_tree start net = (Some e, net)"
        using Some Inr by (simp add: rebuild_spanning_tree_def)
      then show ?thesis by simp
    next
      case nodes: (Inr nodes)
      let ?ps = "find_shortest_paths nodes s"
      let ?m0 = "\<lparr>store = heap net, best_links = {}, links_to_deactivate = {}\<rparr>"
      obtain e m where mp: "mark_paths net ?ps ?m0 = (e, m)" by (cases "mark_paths net ?ps ?m0")
      define h1 where "h1 = (case e of None \<Rightarrow> deactivate_all (links_to_deactivate m) (store m)
                                      | Some _ \<Rightarrow> store m)"
      let ?net1 = "net\<lparr>heap := h1\<rparr>"
      let ?m1 = "\<lparr>store = h1, best_links = {}, links_to_deactivate = {}\<rparr>"
      have r1: "rebuild_spanning_tree start net = (e, ?net1)"
        using Some Inr nodes mp by (simp add: rebuild_spanning_tree_def h1_def split: option.splits)
      have st: "store m = flagged (heap net) (best_links m)"
        using mark_paths_store[of ?m0 "heap net" net ?ps] mp by (simp add: flagged_empty)
      have shape: "same_shape (heap net) h1"
        by (simp add: same_shape_def h1_def st split: option.splits)
      have start1: "(case start of None \<Rightarrow> root ?net1 | Some s \<Rightarrow> Some s) = Some s"
        using Some by (cases start) simp_all
      have sw1: "sweep ?net1 [s] {} 0 = Inr sws"
        using sweep_cong[of ?net1 net "[s]" "{}" 0] shape Inr by simp
      have bn1: "build_nodes ?net1 sws (remdups sws) = Inr nodes"
        using build_nodes_cong[of ?net1 net sws "remdups sws"] shape nodes by simp
      have "marks_agree (heap net) h1 ?m0 ?m1"
        by (simp add: marks_agree_def flagged_empty)
      from mark_paths_agree[OF _ shape this, of ?net1 net ?ps] mp
      obtain m' where mp': "mark_paths ?net1 ?ps ?m1 = (e, m')"
        and ag: "marks_agree (heap net) h1 m m'"
        by (cases "mark_paths ?net1 ?ps ?m1") auto
      from ag have st': "store m' = flagged h1 (best_links m)"
        and de: "links_to_deactivate m' = links_to_deactivate m"
        by (simp_all add: marks_agree_def)
      have fin: "(case e of None \<Rightarrow> deactivate_all (links_to_deactivate m') (store m')
                          | Some _ \<Rightarrow> store m') = h1"
        by (simp add: h1_def st st' de deactivate_all_idem flagged_idem split: option.splits)
      have r2: "rebuild_spanning_tree start ?net1 = (e, ?net1)"
        using start1 sw1 bn1 mp' fin
        by (auto simp: rebuild_spanning_tree_def split: option.splits)
      show ?thesis using r1 r2 by simp
    qed
  qed
qed

section \<open>Scope of the rebuild: properties\<close>

lemma get_switch_registered:
  "d \<in> dpid ` set (switches net) \<Longrightarrow> \<exists>sw. get_switch net d = Some sw"
  unfolding get_switch_def by (cases "find (\<lambda>sw. dpid sw = d) (switches net)") (auto simp: find_None_iff)

lemma well_formed_neighbours_registered:
  assumes "well_formed net"
  shows "set (neighbours net d) \<subseteq> dpid ` set (switches net)"
proof (cases "get_switch net d")
  case None
  then show ?thesis by (simp add: neighbours_def)
next
  case (Some sw)
  have "sw \<in> set (switches net)" using get_switch_SomeD[OF Some] by simp
  then have "switch (heap net l) \<in> dpid ` set (switches net)" if "l \<in> set (links sw)" for l
    using assms that unfolding well_formed_def by force
  then show ?thesis using Some by (auto simp: neighbours_def)
qed

lemma connected_step: "connected net a b \<Longrightarrow> c \<in> set (neighbours net b) \<Longrightarrow> connected net a c"
  unfolding connected_def link_edges_def by (auto intro: rtrancl_into_rtrancl)

lemma sweep_result:
  assumes wf: "well_formed net"
  shows "set sws \<subseteq> dpid ` set (switches net) \<Longrightarrow> \<forall>d \<in> set sws. connected net s d \<Longrightarrow>
     added \<subseteq> set sws \<Longrightarrow> \<forall>d \<in> set (take i sws). set (neighbours net d) \<subseteq> set sws \<Longrightarrow>
     \<exists>out. sweep net sws added i = Inr out \<and> set sws \<subseteq> set out \<and>
        set out \<subseteq> dpid ` set (switches net) \<and> (\<forall>d \<in> set out. connected net s d) \<and>
        (\<forall>d \<in> set out. set (neighbours net d) \<subseteq> set out)"
  using wf
proof (induction net sws added i rule: sweep.induct)
  case (1 net sws added i)
  show ?case
  proof (cases "i < length sws")
    case False
    then have "take i sws = sws" by simp
    with "1.prems" False show ?thesis by (simp add: sweep.simps[of net sws added i])
  next
    case True
    let ?d = "sws ! i"
    have dreg: "?d \<in> dpid ` set (switches net)" using "1.prems"(1) True by auto
    then obtain sw where g: "get_switch net ?d = Some sw" using get_switch_registered by blast
    let ?new = "map (\<lambda>x. switch (heap net x))
                  (filter (\<lambda>x. switch (heap net x) \<notin> insert ?d added) (links sw))"
    have nb: "neighbours net ?d = map (\<lambda>x. switch (heap net x)) (links sw)"
      by (simp add: neighbours_def g)
    have new_nb: "set ?new \<subseteq> set (neighbours net ?d)" by (auto simp: nb)
    have p1: "set (sws @ ?new) \<subseteq> dpid ` set (switches net)"
      using "1.prems"(1) new_nb well_formed_neighbours_registered[OF "1.prems"(5), of ?d] by auto
    have dcon: "connected net s ?d" using "1.prems"(2) True by auto
    have p2: "\<forall>d \<in> set (sws @ ?new). connected net s d"
      using "1.prems"(2) new_nb connected_step[OF dcon] by auto
    have p3: "insert ?d added \<subseteq> set (sws @ ?new)"
      using "1.prems"(3) True by auto
    have tk: "take (i + 1) (sws @ ?new) = take i sws @ [?d]"
      using True by (simp add: take_Suc_conv_app_nth)
    have nbd: "set (neighbours net ?d) \<subseteq> set (sws @ ?new)"
      using "1.prems"(3) True by (auto simp: nb)
    have p4: "\<forall>d \<in> set (take (i + 1) (sws @ ?new)). set (neighbours net d) \<subseteq> set (sws @ ?new)"
    proof
      fix d assume "d \<in> set (take (i + 1) (sws @ ?new))"
      then have "d \<in> set (take i sws) \<or> d = ?d" unfolding tk by auto
      then show "set (neighbours net d) \<subseteq> set (sws @ ?new)"
        using "1.prems"(4) nbd by auto
    qed
    from "1.IH"[OF True g p1 p2 p3 p4 "1.prems"(5)]
    obtain out where o: "sweep net (sws @ ?new) (insert ?d added) (i + 1) = Inr out"
      and o1: "set (sws @ ?new) \<subseteq> set out"
      and o2: "set out \<subseteq> dpid ` set (switches net)"
      and o3: "\<forall>d \<in> set out. connected net s d"
      and o4: "\<forall>d \<in> set out. set (neighbours net d) \<subseteq> set out"
      by blast
    have "sweep net sws added i = Inr out"
      using True g o by (simp add: sweep.simps[of net sws added i])
    with o1 o2 o3 o4 show ?thesis by auto
  qed
qed

lemma build_nodes_result:
  "set ds \<subseteq> dpid ` set (switches net) \<Longrightarrow> \<forall>d \<in> set ds. set (neighbours net d) \<subseteq> set names \<Longrightarrow>
   \<exists>g. build_nodes net names ds = Inr g \<and> map fst g = ds"
proof (induction ds)
  case Nil
  then show ?case by simp
next
  case (Cons d ds)
  from Cons.prems(1) obtain sw where g: "get_switch net d = Some sw"
    using get_switch_registered[of d net] by auto
  have "set (map (\<lambda>x. switch (heap net x)) (links sw)) \<subseteq> set names"
    using Cons.prems(2) g by (simp add: neighbours_def)
  moreover from Cons.IH Cons.prems obtain gr where "build_nodes net names ds = Inr gr" "map fst gr = ds"
    by auto
  ultimately show ?case using g by simp
qed

lemma find_shortest_paths_names: "map fst (find_shortest_paths g s) = map fst g"
  by (simp add: find_shortest_paths_def Let_def case_prod_unfold comp_def)

lemma mark_paths_no_error:
  "fst ` set ps \<subseteq> dpid ` set (switches net) \<Longrightarrow> fst (mark_paths net ps m) = None"
proof (induction net ps m rule: mark_paths.induct)
  case (1 net m)
  then show ?case by simp
next
  case (2 net n ps m)
  then show ?case by simp
next
  case (3 net n b ps m)
  from "3.prems" obtain sw where g: "get_switch net n = Some sw"
    using get_switch_registered[of n net] by auto
  from "3.IH"[OF g] "3.prems" g show ?case by simp
qed

lemma mark_links_within:
  "store m = flagged h (best_links m) \<Longrightarrow> best_links m \<union> links_to_deactivate m \<subseteq> T \<Longrightarrow>
   set ls \<subseteq> T \<Longrightarrow> (\<lambda>x. reverse (h x)) ` set ls \<subseteq> T \<Longrightarrow>
   best_links (mark_links b ls m) \<union> links_to_deactivate (mark_links b ls m) \<subseteq> T"
proof (induction ls arbitrary: m)
  case Nil
  then show ?case by simp
next
  case (Cons l ls)
  have rv: "reverse (store m l) = reverse (h l)" by (simp add: Cons.prems(1))
  let ?r = "reverse (h l)"
  from Cons.prems have l: "l \<in> T" and r: "?r \<in> T" and ls: "set ls \<subseteq> T"
    and rs: "(\<lambda>x. reverse (h x)) ` set ls \<subseteq> T" by auto
  let ?m1 = "m\<lparr>store := activate ?r (activate l (store m)),
         best_links := insert ?r (insert l (best_links m)),
         links_to_deactivate := links_to_deactivate m - {l} - {?r}\<rparr>"
  let ?m2 = "m\<lparr>links_to_deactivate := insert ?r (insert l (links_to_deactivate m))\<rparr>"
  have s1: "store ?m1 = flagged h (best_links ?m1)"
    by (simp add: Cons.prems(1) activate_flagged)
  have w1: "best_links ?m1 \<union> links_to_deactivate ?m1 \<subseteq> T"
    using Cons.prems(2) l r by auto
  have s2: "store ?m2 = flagged h (best_links ?m2)"
    using Cons.prems(1) by simp
  have w2: "best_links ?m2 \<union> links_to_deactivate ?m2 \<subseteq> T"
    using Cons.prems(2) l r by auto
  show ?case
    using Cons.IH[OF s1 w1 ls rs] Cons.IH[OF s2 w2 ls rs] Cons.IH[OF Cons.prems(1,2) ls rs]
    by (simp add: Let_def rv)
qed

lemma mark_paths_within:
  "store m = flagged h (best_links m) \<Longrightarrow> best_links m \<union> links_to_deactivate m \<subseteq> T \<Longrightarrow>
   \<forall>n \<in> fst ` set ps. \<forall>sw. get_switch net n = Some sw \<longrightarrow>
      set (links sw) \<subseteq> T \<and> (\<lambda>x. reverse (h x)) ` set (links sw) \<subseteq> T \<Longrightarrow>
   best_links (snd (mark_paths net ps m)) \<union> links_to_deactivate (snd (mark_paths net ps m)) \<subseteq> T"
proof (induction net ps m rule: mark_paths.induct)
  case (1 net m)
  then show ?case by simp
next
  case (2 net n ps m)
  then show ?case by simp
next
  case (3 net n b ps m)
  show ?case
  proof (cases "get_switch net n")
    case None
    then show ?thesis using "3.prems"(2) by simp
  next
    case (Some sw)
    have a: "set (links sw) \<subseteq> T" and b: "(\<lambda>x. reverse (h x)) ` set (links sw) \<subseteq> T"
      using "3.prems"(3) Some by auto
    have s1: "store (mark_links b (links sw) m) = flagged h (best_links (mark_links b (links sw) m))"
      by (rule mark_links_store[OF "3.prems"(1)])
    have w1: "best_links (mark_links b (links sw) m) \<union> links_to_deactivate (mark_links b (links sw) m) \<subseteq> T"
      by (rule mark_links_within[OF "3.prems"(1,2) a b])
    have rest: "\<forall>n \<in> fst ` set ps. \<forall>sw. get_switch net n = Some sw \<longrightarrow>
      set (links sw) \<subseteq> T \<and> (\<lambda>x. reverse (h x)) ` set (links sw) \<subseteq> T"
      using "3.prems"(3) by auto
    from "3.IH"[OF Some s1 w1 rest] Some show ?thesis by simp
  qed
qed

text \<open>
  C9. In a well-formed network, a rebuild from a registered start switch returns without
  an error, changes no switch record, and leaves every link of every switch that is not
  connected to the start by known links exactly as it was.
\<close>

theorem rebuild_leaves_unconnected_untouched:
  assumes wf: "well_formed net"
    and start: "(case start of None \<Rightarrow> root net | Some s \<Rightarrow> Some s) = Some s"
    and reg: "s \<in> dpid ` set (switches net)"
    and sw: "sw \<in> set (switches net)"
    and unc: "\<not> connected net s (dpid sw)"
  shows "fst (rebuild_spanning_tree start net) = None \<and>
         switches (snd (rebuild_spanning_tree start net)) = switches net \<and>
         (\<forall>l \<in> set (links sw). heap (snd (rebuild_spanning_tree start net)) l = heap net l)"
proof -
  let ?h = "heap net"
  let ?m0 = "\<lparr>store = ?h, best_links = {}, links_to_deactivate = {}\<rparr>"
  have "connected net s s" by (simp add: connected_def)
  with sweep_result[OF wf, of "[s]" s "{}" 0] reg
  obtain out where sweep: "sweep net [s] {} 0 = Inr out"
    and out_reg: "set out \<subseteq> dpid ` set (switches net)"
    and out_con: "\<forall>d \<in> set out. connected net s d"
    and out_closed: "\<forall>d \<in> set out. set (neighbours net d) \<subseteq> set out"
    by auto
  from build_nodes_result[of "remdups out" net out] out_reg out_closed
  obtain nodes where nodes: "build_nodes net out (remdups out) = Inr nodes"
    and names: "map fst nodes = remdups out"
    by auto
  let ?ps = "find_shortest_paths nodes s"
  have ps_names: "fst ` set ?ps = set out"
    using find_shortest_paths_names[of nodes s] names
    by (metis set_map set_remdups)
  obtain e m where mp: "mark_paths net ?ps ?m0 = (e, m)" by (cases "mark_paths net ?ps ?m0")
  have "fst (mark_paths net ?ps ?m0) = None"
    by (rule mark_paths_no_error) (use ps_names out_reg in simp)
  with mp have e: "e = None" by simp
  let ?h' = "deactivate_all (links_to_deactivate m) (store m)"
  have result: "rebuild_spanning_tree start net = (None, net\<lparr>heap := ?h'\<rparr>)"
    using start sweep nodes mp e by (simp add: rebuild_spanning_tree_def)
  have st: "store m = flagged ?h (best_links m)"
    using mark_paths_store[of ?m0 ?h net ?ps] mp by (simp add: flagged_empty)
  let ?T = "{l. owner (?h l) \<in> set out}"
  have owned: "set (links sw') \<subseteq> ?T \<and> (\<lambda>x. reverse (?h x)) ` set (links sw') \<subseteq> ?T"
    if n: "n \<in> set out" and g: "get_switch net n = Some sw'" for n sw'
  proof -
    have sw': "sw' \<in> set (switches net)" and d: "dpid sw' = n"
      using get_switch_SomeD[OF g] by auto
    have "owner (?h l) \<in> set out \<and> owner (?h (reverse (?h l))) \<in> set out"
      if l: "l \<in> set (links sw')" for l
    proof -
      from wf sw' l have o: "owner (?h l) = dpid sw'"
        and ex: "\<exists>sw'' \<in> set (switches net).
                  dpid sw'' = switch (?h l) \<and> reverse (?h l) \<in> set (links sw'')"
        unfolding well_formed_def by blast+
      from ex obtain sw'' where s'': "sw'' \<in> set (switches net)"
        and d'': "dpid sw'' = switch (?h l)" and r'': "reverse (?h l) \<in> set (links sw'')"
        by blast
      from wf s'' r'' have "owner (?h (reverse (?h l))) = dpid sw''"
        unfolding well_formed_def by blast
      moreover have "switch (?h l) \<in> set (neighbours net n)"
        using g l by (simp add: neighbours_def)
      ultimately show ?thesis using o d n d'' out_closed by auto
    qed
    then show ?thesis by auto
  qed
  have within: "best_links m \<union> links_to_deactivate m \<subseteq> ?T"
    using mark_paths_within[of ?m0 ?h ?T ?ps net] mp owned ps_names
    by (simp add: flagged_empty)
  have "?h' l = ?h l" if l: "l \<in> set (links sw)" for l
  proof -
    from wf sw l have "owner (?h l) = dpid sw" unfolding well_formed_def by blast
    moreover have "dpid sw \<notin> set out" using unc out_con by auto
    ultimately have "l \<notin> ?T" by simp
    with within have "l \<notin> best_links m" "l \<notin> links_to_deactivate m" by auto
    then show ?thesis by (simp add: st deactivate_all_def flagged_def)
  qed
  with result show ?thesis by simp
qed

lemma well_formed_line_network: "well_formed line_network"
  by code_simp

lemma symmetric_flags_line_network: "symmetric_flags line_network"
  by code_simp

lemma island_network_unconnected: "\<not> connected island_network 1 3"
proof
  assume "connected island_network 1 3"
  then have "(1, 3) \<in> (link_edges island_network)\<^sup>*" by (simp add: connected_def)
  then have "(3::int) \<in> {1, 2}"
  proof (induction rule: rtrancl_induct)
    case base
    then show ?case by simp
  next
    case (step y z)
    have n1: "neighbours island_network 1 = [2]" by code_simp
    have n2: "neighbours island_network 2 = [1]" by code_simp
    from step.hyps(2) have "z \<in> set (neighbours island_network y)" by (simp add: link_edges_def)
    with step.IH n1 n2 show ?case by auto
  qed
  then show False by simp
qed

theorem rebuild_leaves_unconnected_untouched_witness:
  "well_formed island_network \<and> \<not> connected island_network 1 3 \<and>
   links (switches island_network ! 2) = [2] \<and>
   fst (rebuild_spanning_tree None island_network) = None \<and>
   switches (snd (rebuild_spanning_tree None island_network)) = switches island_network \<and>
   heap (snd (rebuild_spanning_tree None island_network)) 2 = heap island_network 2"
proof -
  have wf: "well_formed island_network" by code_simp
  have start: "(case None of None \<Rightarrow> root island_network | Some s \<Rightarrow> Some s) = Some 1"
    by (simp add: island_network_def)
  have reg: "1 \<in> dpid ` set (switches island_network)" by code_simp
  have len: "length (switches island_network) = 4" by code_simp
  have sw: "switches island_network ! 2 \<in> set (switches island_network)"
    by (rule nth_mem) (simp add: len)
  have d: "dpid (switches island_network ! 2) = 3" by code_simp
  have l: "links (switches island_network ! 2) = [2]" by code_simp
  from rebuild_leaves_unconnected_untouched[OF wf start reg sw] island_network_unconnected d l wf
  show ?thesis by simp
qed

section \<open>Parallel links: properties\<close>

text \<open>
  C1 fails on parallel links. The classification loop activates every link of a node whose
  neighbour is the node's best neighbour; with two links between switches 1 and 2 the
  rebuild returns with all four directed links active: two undirected active edges over
  two switches, where a tree has one.
\<close>

theorem parallel_links_all_activated:
  "map (\<lambda>sw. (dpid sw, links sw)) (switches parallel_network) = [(1, [0, 2]), (2, [1, 3])] \<and>
   map (\<lambda>l. (port (heap parallel_network l), switch (heap parallel_network l),
              reverse (heap parallel_network l))) [0, 1, 2, 3]
     = [(1, 2, 1), (1, 1, 0), (2, 2, 3), (2, 1, 2)] \<and>
   fst (rebuild_spanning_tree None parallel_network) = None \<and>
   map (\<lambda>l. active (heap (snd (rebuild_spanning_tree None parallel_network)) l)) [0, 1, 2, 3]
     = [True, True, True, True] \<and>
   (case process_events [discovery 1 1 2 1, discovery 1 2 2 2] (init_network [1, 2]) of
      Inl e \<Rightarrow> False
    | Inr net \<Rightarrow> map (\<lambda>l. active (heap net l)) [0, 1, 2, 3] = [True, True, True, True])"
  by code_simp

section \<open>What the propagation reads and writes: properties\<close>

lemma find_map_dpid:
  "(\<And>sw. dpid (f sw) = dpid sw) \<Longrightarrow>
   find (\<lambda>sw. dpid sw = x) (map f sws) = map_option f (find (\<lambda>sw. dpid sw = x) sws)"
  by (induction sws) auto

lemma get_switch_learn:
  "get_switch (learn_mac_location d m p net) x =
     map_option (\<lambda>sw. if dpid sw = d then sw\<lparr>mac_table := (mac_table sw)(m \<mapsto> p)\<rparr> else sw)
       (get_switch net x)"
  unfolding get_switch_def learn_mac_location_def update_switch_def
  by (simp add: find_map_dpid)

lemma same_topology_learn: "same_topology net (learn_mac_location d m p net)"
proof -
  have "links_of (learn_mac_location d m p net) x = links_of net x" for x
    by (cases "get_switch net x") (simp_all add: links_of_def get_switch_learn)
  then show ?thesis
    by (auto simp: same_topology_def learn_mac_location_def)
qed

lemma lookup_mac_learn:
  "lookup_mac (learn_mac_location d m p net) x m' =
     (if x = d \<and> m' = m \<and> links_of net x \<noteq> None then Some p else lookup_mac net x m')"
proof (cases "get_switch net x")
  case None
  then show ?thesis by (simp add: lookup_mac_def get_switch_learn links_of_def)
next
  case (Some sw)
  then have "dpid sw = x" using get_switch_SomeD by blast
  with Some show ?thesis by (simp add: lookup_mac_def get_switch_learn links_of_def)
qed

lemma same_topology_refl [simp]: "same_topology net net"
  by (simp add: same_topology_def)

lemma same_topology_trans:
  "same_topology a b \<Longrightarrow> same_topology b c \<Longrightarrow> same_topology a c"
  by (simp add: same_topology_def)

lemma followed_same: "same_topology net net' \<Longrightarrow> followed net' s p = followed net s p"
  by (simp add: same_topology_def followed_def split: option.splits)

lemma teach_path_same: "same_topology net net' \<Longrightarrow> teach_path net' s p w = teach_path net s p w"
  by (induction w arbitrary: s p) (simp_all add: followed_same, simp add: same_topology_def)

lemma arrival_same: "same_topology net net' \<Longrightarrow> arrival net' s p w = arrival net s p w"
  by (induction w arbitrary: s p) (simp_all add: same_topology_def)

lemma arrivals_same: "same_topology net net' \<Longrightarrow> arrivals net' s p = arrivals net s p"
  by (simp add: arrivals_def teach_path_same arrival_same)

lemma teach_mac_location_Suc:
  "teach_mac_location (Suc n) net s m p =
     (if links_of net s = None then Inl AttributeError
      else fold (\<lambda>l res.
                  case res of
                    Inl e \<Rightarrow> Inl e
                  | Inr net' \<Rightarrow>
                      teach_mac_location n net' (switch (heap net' l)) m
                        (port (heap net' (reverse (heap net' l)))))
             (followed net s p) (Inr (learn_mac_location s m p net)))"
  by (cases "get_switch net s") (simp_all add: links_of_def followed_def)

declare teach_mac_location.simps(2) [simp del]

lemma followed_iff:
  "l \<in> set (followed net s p) \<longleftrightarrow>
     (\<exists>ls. links_of net s = Some ls \<and> l \<in> set ls \<and> port (heap net l) \<noteq> p \<and> active (heap net l))"
  by (cases "links_of net s") (auto simp: followed_def)

lemma arrivals_self: "(s, p) \<in> arrivals net s p"
  unfolding arrivals_def by (auto intro: exI[of _ "[]"])

lemma arrivals_step:
  assumes "l \<in> set (followed net s p)"
  shows "arrivals net (switch (heap net l)) (port (heap net (reverse (heap net l)))) \<subseteq> arrivals net s p"
proof
  fix a assume "a \<in> arrivals net (switch (heap net l)) (port (heap net (reverse (heap net l))))"
  then obtain w where "teach_path net (switch (heap net l)) (port (heap net (reverse (heap net l)))) w"
    and "arrival net (switch (heap net l)) (port (heap net (reverse (heap net l)))) w = a"
    by (auto simp: arrivals_def)
  with assms have "teach_path net s p (l # w)" "arrival net s p (l # w) = a" by simp_all
  then show "a \<in> arrivals net s p" unfolding arrivals_def by blast
qed

lemma arrivals_unfold:
  "arrivals net s p = insert (s, p)
     (\<Union>l \<in> set (followed net s p).
        arrivals net (switch (heap net l)) (port (heap net (reverse (heap net l)))))"
proof (rule equalityI)
  show "arrivals net s p \<subseteq> insert (s, p)
     (\<Union>l \<in> set (followed net s p).
        arrivals net (switch (heap net l)) (port (heap net (reverse (heap net l)))))"
  proof
    fix a assume "a \<in> arrivals net s p"
    then obtain w where w: "teach_path net s p w" "arrival net s p w = a"
      by (auto simp: arrivals_def)
    show "a \<in> insert (s, p)
     (\<Union>l \<in> set (followed net s p).
        arrivals net (switch (heap net l)) (port (heap net (reverse (heap net l)))))"
    proof (cases w)
      case Nil
      with w show ?thesis by simp
    next
      case (Cons l w')
      with w have "l \<in> set (followed net s p)"
        and "a \<in> arrivals net (switch (heap net l)) (port (heap net (reverse (heap net l))))"
        by (auto simp: arrivals_def)
      then show ?thesis by blast
    qed
  qed
  show "insert (s, p)
     (\<Union>l \<in> set (followed net s p).
        arrivals net (switch (heap net l)) (port (heap net (reverse (heap net l)))))
     \<subseteq> arrivals net s p"
    using arrivals_self arrivals_step by fastforce
qed

lemma closed_links_same: "same_topology net net' \<Longrightarrow> closed_links net' = closed_links net"
  by (simp add: same_topology_def closed_links_def)

lemma unique_arrival_same:
  "same_topology net net' \<Longrightarrow> unique_arrival net' s p = unique_arrival net s p"
  by (simp add: unique_arrival_def arrivals_same)

lemma unique_arrival_step:
  assumes "unique_arrival net s p" and "l \<in> set (followed net s p)"
  shows "unique_arrival net (switch (heap net l)) (port (heap net (reverse (heap net l))))"
  using assms arrivals_step[OF assms(2)] unfolding unique_arrival_def by blast

lemma taught_compose:
  assumes a: "taught net net1 m A" and b: "taught net1 net2 m B"
    and u: "\<forall>t q q'. (t, q) \<in> A \<and> (t, q') \<in> B \<longrightarrow> q = q'"
  shows "taught net net2 m (A \<union> B)"
proof -
  have top: "same_topology net net2"
    using a b by (auto simp: taught_def intro: same_topology_trans)
  have val: "lookup_mac net2 t m = Some q" if "(t, q) \<in> A \<union> B" for t q
  proof (cases "(t, q) \<in> B")
    case True
    then show ?thesis using b by (simp add: taught_def)
  next
    case False
    with that have inA: "(t, q) \<in> A" by simp
    show ?thesis
    proof (cases "t \<in> fst ` B")
      case True
      then obtain q' where q': "(t, q') \<in> B" by force
      with u inA have "q = q'" by blast
      with q' b show ?thesis by (simp add: taught_def)
    next
      case False
      then have "lookup_mac net2 t m = lookup_mac net1 t m" using b by (simp add: taught_def)
      also have "\<dots> = Some q" using a inA by (simp add: taught_def)
      finally show ?thesis .
    qed
  qed
  have frame: "lookup_mac net2 t m = lookup_mac net t m" if "t \<notin> fst ` (A \<union> B)" for t
  proof -
    from that have "t \<notin> fst ` A" "t \<notin> fst ` B" by auto
    then show ?thesis using a b by (simp add: taught_def)
  qed
  show ?thesis unfolding taught_def using top val frame by blast
qed

lemma fold_teach:
  assumes sub: "\<And>l net1. l \<in> set ls0 \<Longrightarrow> same_topology net net1 \<Longrightarrow>
        \<exists>net2. teach_mac_location n net1 (switch (heap net l)) m
                  (port (heap net (reverse (heap net l)))) = Inr net2 \<and>
          taught net1 net2 m
            (arrivals net (switch (heap net l)) (port (heap net (reverse (heap net l)))))"
    and u: "unique_arrival net s p"
    and inc: "\<And>l. l \<in> set ls0 \<Longrightarrow>
        arrivals net (switch (heap net l)) (port (heap net (reverse (heap net l))))
          \<subseteq> arrivals net s p"
  shows "set ls \<subseteq> set ls0 \<Longrightarrow> A \<subseteq> arrivals net s p \<Longrightarrow> taught net net1 m A \<Longrightarrow>
     \<exists>net2. fold (\<lambda>l res.
                  case res of
                    Inl e \<Rightarrow> Inl e
                  | Inr net' \<Rightarrow>
                      teach_mac_location n net' (switch (heap net' l)) m
                        (port (heap net' (reverse (heap net' l)))))
             ls (Inr net1) = Inr net2 \<and>
       taught net net2 m
         (A \<union> (\<Union>l \<in> set ls.
                  arrivals net (switch (heap net l)) (port (heap net (reverse (heap net l))))))"
proof (induction ls arbitrary: net1 A)
  case Nil
  then show ?case by simp
next
  case (Cons l ls)
  let ?B = "arrivals net (switch (heap net l)) (port (heap net (reverse (heap net l))))"
  from Cons.prems have l: "l \<in> set ls0" and ls: "set ls \<subseteq> set ls0" by auto
  have top: "same_topology net net1" using Cons.prems(3) by (simp add: taught_def)
  then have h: "heap net1 = heap net" by (simp add: same_topology_def)
  from sub[OF l top] obtain net2 where
    t: "teach_mac_location n net1 (switch (heap net l)) m
          (port (heap net (reverse (heap net l)))) = Inr net2"
    and tg: "taught net1 net2 m ?B"
    by blast
  have B: "?B \<subseteq> arrivals net s p" by (rule inc[OF l])
  have "\<forall>t q q'. (t, q) \<in> A \<and> (t, q') \<in> ?B \<longrightarrow> q = q'"
    using u Cons.prems(2) B unfolding unique_arrival_def by blast
  from taught_compose[OF Cons.prems(3) tg this] have tg2: "taught net net2 m (A \<union> ?B)" .
  have AB: "A \<union> ?B \<subseteq> arrivals net s p" using Cons.prems(2) B by simp
  from Cons.IH[OF ls AB tg2] obtain net3 where
    f: "fold (\<lambda>l res.
                  case res of
                    Inl e \<Rightarrow> Inl e
                  | Inr net' \<Rightarrow>
                      teach_mac_location n net' (switch (heap net' l)) m
                        (port (heap net' (reverse (heap net' l)))))
             ls (Inr net2) = Inr net3"
    and tg3: "taught net net3 m
         ((A \<union> ?B) \<union> (\<Union>l \<in> set ls.
                  arrivals net (switch (heap net l)) (port (heap net (reverse (heap net l))))))"
    by blast
  have eq: "A \<union> (\<Union>l \<in> set (l # ls).
                  arrivals net (switch (heap net l)) (port (heap net (reverse (heap net l)))))
        = (A \<union> ?B) \<union> (\<Union>l \<in> set ls.
                  arrivals net (switch (heap net l)) (port (heap net (reverse (heap net l)))))"
    by auto
  show ?case
    unfolding eq using f tg3 t by (simp add: h)
qed

lemma teach_general:
  "closed_links net \<Longrightarrow> links_of net s \<noteq> None \<Longrightarrow>
   \<forall>w. teach_path net s p w \<longrightarrow> length w \<le> n \<Longrightarrow> unique_arrival net s p \<Longrightarrow>
   \<exists>net'. teach_mac_location (Suc n) net s m p = Inr net' \<and> taught net net' m (arrivals net s p)"
proof (induction n arbitrary: net s p)
  case 0
  have "followed net s p = []"
  proof (rule ccontr)
    assume "followed net s p \<noteq> []"
    then obtain l where "l \<in> set (followed net s p)" by (cases "followed net s p") auto
    then have "teach_path net s p [l]" by simp
    with "0.prems"(3) show False by fastforce
  qed
  moreover have "taught net (learn_mac_location s m p net) m {(s, p)}"
    using "0.prems"(2) by (simp add: taught_def same_topology_learn lookup_mac_learn)
  ultimately show ?case
    using "0.prems"(2) by (simp add: teach_mac_location_Suc arrivals_unfold[of net s p])
next
  case (Suc n)
  let ?net0 = "learn_mac_location s m p net"
  have t0: "taught net ?net0 m {(s, p)}"
    using Suc.prems(2) by (simp add: taught_def same_topology_learn lookup_mac_learn)
  have sub: "\<exists>net2. teach_mac_location (Suc n) net1 (switch (heap net l)) m
                  (port (heap net (reverse (heap net l)))) = Inr net2 \<and>
          taught net1 net2 m
            (arrivals net (switch (heap net l)) (port (heap net (reverse (heap net l)))))"
    if l: "l \<in> set (followed net s p)" and top: "same_topology net net1" for l net1
  proof -
    let ?t = "switch (heap net l)" and ?q = "port (heap net (reverse (heap net l)))"
    from l obtain ls where ls: "links_of net s = Some ls" and lin: "l \<in> set ls"
      by (auto simp: followed_iff)
    have c1: "closed_links net1" using Suc.prems(1) top by (simp add: closed_links_same)
    have r1: "links_of net1 ?t \<noteq> None"
      using Suc.prems(1) ls lin top by (auto simp: closed_links_def same_topology_def)
    have b1: "\<forall>w. teach_path net1 ?t ?q w \<longrightarrow> length w \<le> n"
    proof (intro allI impI)
      fix w assume "teach_path net1 ?t ?q w"
      then have "teach_path net s p (l # w)" using l top by (simp add: teach_path_same)
      with Suc.prems(3) have "length (l # w) \<le> Suc n" by blast
      then show "length w \<le> n" by simp
    qed
    have u1: "unique_arrival net1 ?t ?q"
      using unique_arrival_step[OF Suc.prems(4) l] top by (simp add: unique_arrival_same)
    from Suc.IH[OF c1 r1 b1 u1] show ?thesis
      using top by (simp add: arrivals_same)
  qed
  from fold_teach[where ls0 = "followed net s p" and ls = "followed net s p" and A = "{(s, p)}"
        and n = "Suc n" and net = net and m = m and s = s and p = p and ?net1.0 = ?net0,
        OF sub Suc.prems(4) arrivals_step _ _ t0]
  obtain net2 where "fold (\<lambda>l res.
                  case res of
                    Inl e \<Rightarrow> Inl e
                  | Inr net' \<Rightarrow>
                      teach_mac_location (Suc n) net' (switch (heap net' l)) m
                        (port (heap net' (reverse (heap net' l)))))
             (followed net s p) (Inr ?net0) = Inr net2"
    and "taught net net2 m
         ({(s, p)} \<union> (\<Union>l \<in> set (followed net s p).
                  arrivals net (switch (heap net l)) (port (heap net (reverse (heap net l))))))"
    using arrivals_self[of s p net] by auto
  then show ?case
    using Suc.prems(2) by (simp add: teach_mac_location_Suc[of "Suc n"] arrivals_unfold[of net s p])
qed

section \<open>The active links as a graph: properties\<close>

lemma active_links_iff:
  "l \<in> set (active_links net s) \<longleftrightarrow>
     (\<exists>ls. links_of net s = Some ls \<and> l \<in> set ls \<and> active (heap net l))"
  by (cases "links_of net s") (auto simp: active_links_def)

lemma followed_active: "l \<in> set (followed net s p) \<longleftrightarrow> l \<in> set (active_links net s) \<and> port (heap net l) \<noteq> p"
  by (auto simp: followed_iff active_links_iff)

lemma active_walk_append:
  "active_walk net v (a @ b) \<longleftrightarrow> active_walk net v a \<and> active_walk net (walk_end net v a) b"
  by (induction a arbitrary: v) auto

lemma walk_end_append: "walk_end net v (a @ b) = walk_end net (walk_end net v a) b"
  by (induction a arbitrary: v) auto

lemma non_backtracking_append:
  "non_backtracking net (a @ b) \<longleftrightarrow>
     non_backtracking net a \<and> non_backtracking net b \<and>
     (a \<noteq> [] \<and> b \<noteq> [] \<longrightarrow> hd b \<noteq> reverse (heap net (last a)))"
proof (induction net a rule: non_backtracking.induct)
  case (1 net')
  then show ?case by simp
next
  case (2 net' l)
  then show ?case by (cases b) auto
next
  case (3 net' l l' w)
  then show ?case by auto
qed

lemma find_distinct:
  "distinct (map dpid sws) \<Longrightarrow> sw \<in> set sws \<Longrightarrow> find (\<lambda>x. dpid x = dpid sw) sws = Some sw"
  by (induction sws) (auto simp: image_iff)

lemma links_of_SomeD:
  "links_of net x = Some ls \<Longrightarrow> \<exists>sw \<in> set (switches net). dpid sw = x \<and> links sw = ls"
  unfolding links_of_def using get_switch_SomeD by fastforce

lemma well_formed_links:
  assumes wf: "well_formed net" and ls: "links_of net x = Some ls" and l: "l \<in> set ls"
  shows "\<exists>ls'. links_of net (switch (heap net l)) = Some ls' \<and> reverse (heap net l) \<in> set ls'"
    and "reverse (heap net (reverse (heap net l))) = l"
    and "switch (heap net (reverse (heap net l))) = x"
proof -
  from links_of_SomeD[OF ls] obtain sw where sw: "sw \<in> set (switches net)"
    and d: "dpid sw = x" and k: "links sw = ls" by blast
  from wf sw l k have a: "reverse (heap net (reverse (heap net l))) = l"
    and b: "switch (heap net (reverse (heap net l))) = dpid sw"
    and c: "\<exists>sw' \<in> set (switches net).
           dpid sw' = switch (heap net l) \<and> reverse (heap net l) \<in> set (links sw')"
    unfolding well_formed_def by blast+
  from c obtain sw' where sw': "sw' \<in> set (switches net)"
    and d': "dpid sw' = switch (heap net l)" and r': "reverse (heap net l) \<in> set (links sw')"
    by blast
  from wf have "distinct (map dpid (switches net))" by (simp add: well_formed_def)
  from find_distinct[OF this sw'] d' have "get_switch net (switch (heap net l)) = Some sw'"
    by (simp add: get_switch_def)
  then show "\<exists>ls'. links_of net (switch (heap net l)) = Some ls' \<and> reverse (heap net l) \<in> set ls'"
    using r' by (simp add: links_of_def)
  show "reverse (heap net (reverse (heap net l))) = l" by (rule a)
  show "switch (heap net (reverse (heap net l))) = x" using b d by simp
qed

lemma symmetric_links:
  assumes "symmetric_flags net" and "links_of net x = Some ls" and "l \<in> set ls"
  shows "active (heap net (reverse (heap net l))) = active (heap net l)"
  using links_of_SomeD[OF assms(2)] assms(1,3) unfolding symmetric_flags_def by auto

lemma active_links_reverse:
  assumes wf: "well_formed net" and sym: "symmetric_flags net"
    and l: "l \<in> set (active_links net v)"
  shows "reverse (heap net l) \<in> set (active_links net (switch (heap net l)))"
    and "switch (heap net (reverse (heap net l))) = v"
    and "reverse (heap net (reverse (heap net l))) = l"
proof -
  from l obtain ls where ls: "links_of net v = Some ls" and lin: "l \<in> set ls"
    and act: "active (heap net l)" by (auto simp: active_links_iff)
  from well_formed_links(1)[OF wf ls lin] symmetric_links[OF sym ls lin] act
  show "reverse (heap net l) \<in> set (active_links net (switch (heap net l)))"
    by (auto simp: active_links_iff)
  show "switch (heap net (reverse (heap net l))) = v" by (rule well_formed_links(3)[OF wf ls lin])
  show "reverse (heap net (reverse (heap net l))) = l" by (rule well_formed_links(2)[OF wf ls lin])
qed

lemma reversal_Cons: "reversal net (l # w) = reversal net w @ [reverse (heap net l)]"
  by (simp add: reversal_def)

lemma reversal_walk:
  assumes wf: "well_formed net" and sym: "symmetric_flags net"
  shows "active_walk net v w \<Longrightarrow>
     active_walk net (walk_end net v w) (reversal net w) \<and>
     walk_end net (walk_end net v w) (reversal net w) = v"
proof (induction w arbitrary: v)
  case Nil
  then show ?case by (simp add: reversal_def)
next
  case (Cons l w)
  from Cons.prems have l: "l \<in> set (active_links net v)"
    and w: "active_walk net (switch (heap net l)) w" by auto
  from Cons.IH[OF w] active_links_reverse[OF wf sym l]
  show ?case
    by (simp add: reversal_Cons active_walk_append walk_end_append)
qed

lemma reversal_non_backtracking:
  assumes wf: "well_formed net" and sym: "symmetric_flags net"
  shows "active_walk net v w \<Longrightarrow> non_backtracking net w \<Longrightarrow> non_backtracking net (reversal net w)"
proof (induction w arbitrary: v)
  case Nil
  then show ?case by (simp add: reversal_def)
next
  case (Cons l w)
  from Cons.prems have l: "l \<in> set (active_links net v)"
    and w: "active_walk net (switch (heap net l)) w" by auto
  show ?case
  proof (cases w)
    case Nil
    then show ?thesis by (simp add: reversal_def)
  next
    case (Cons l' w')
    with Cons.prems(2) have ne: "l' \<noteq> reverse (heap net l)" and nb: "non_backtracking net w"
      by auto
    from w Cons have l': "l' \<in> set (active_links net (switch (heap net l)))" by simp
    have last: "last (reversal net w) = reverse (heap net l')"
      using Cons by (simp add: reversal_def)
    have nonempty: "reversal net w \<noteq> []" using Cons by (simp add: reversal_def)
    have "reverse (heap net l) \<noteq> reverse (heap net (reverse (heap net l')))"
      using active_links_reverse(3)[OF wf sym l'] ne by simp
    with Cons.IH[OF w nb] last nonempty show ?thesis
      by (simp add: reversal_Cons non_backtracking_append)
  qed
qed

lemma reversal_hd:
  "w \<noteq> [] \<Longrightarrow> hd (reversal net w) = reverse (heap net (last w))"
  by (simp add: reversal_def hd_map hd_rev)

lemma walk_last_active:
  "active_walk net v w \<Longrightarrow> w \<noteq> [] \<Longrightarrow>
   last w \<in> set (active_links net (walk_end net v (butlast w)))"
proof (induction w arbitrary: v)
  case Nil
  then show ?case by simp
next
  case (Cons l w)
  then show ?case by (cases w) auto
qed

lemma unique_last:
  assumes wf: "well_formed net" and sym: "symmetric_flags net" and acyc: "acyclic_active net"
    and a: "active_walk net v a" "non_backtracking net a" "a \<noteq> []"
    and b: "active_walk net v b" "non_backtracking net b" "b \<noteq> []"
    and e: "walk_end net v a = walk_end net v b"
  shows "last a = last b"
proof (rule ccontr)
  assume ne: "last a \<noteq> last b"
  let ?c = "a @ reversal net b"
  have rb: "active_walk net (walk_end net v b) (reversal net b)"
    "walk_end net (walk_end net v b) (reversal net b) = v"
    using reversal_walk[OF wf sym b(1)] by auto
  have c1: "active_walk net v ?c" using a(1) rb(1) e by (simp add: active_walk_append)
  have c2: "walk_end net v ?c = v" using rb(2) e by (simp add: walk_end_append)
  have la: "last a \<in> set (active_links net (walk_end net v (butlast a)))"
    by (rule walk_last_active[OF a(1,3)])
  have lb: "last b \<in> set (active_links net (walk_end net v (butlast b)))"
    by (rule walk_last_active[OF b(1,3)])
  have "reverse (heap net (last b)) \<noteq> reverse (heap net (last a))"
    using active_links_reverse(3)[OF wf sym la] active_links_reverse(3)[OF wf sym lb] ne
    by metis
  then have c3: "non_backtracking net ?c"
    using a(2) reversal_non_backtracking[OF wf sym b(1,2)] b(3)
    by (simp add: non_backtracking_append reversal_hd)
  from acyc c1 c2 c3 a(3) show False unfolding acyclic_active_def by blast
qed

lemma teach_path_walk:
  "teach_path net s p w \<Longrightarrow> active_walk net s w \<and> non_backtracking net w"
proof (induction w arbitrary: s p)
  case Nil
  then show ?case by simp
next
  case (Cons l w)
  from Cons.prems have l: "l \<in> set (followed net s p)"
    and w: "teach_path net (switch (heap net l)) (port (heap net (reverse (heap net l)))) w"
    by auto
  from Cons.IH[OF w] have aw: "active_walk net (switch (heap net l)) w"
    and nb: "non_backtracking net w" by auto
  have "non_backtracking net (l # w)"
  proof (cases w)
    case Nil
    then show ?thesis by simp
  next
    case (Cons l' w')
    with w have "port (heap net l') \<noteq> port (heap net (reverse (heap net l)))"
      by (simp add: followed_active)
    then have "l' \<noteq> reverse (heap net l)" by auto
    with nb Cons show ?thesis by simp
  qed
  with l aw show ?case by (simp add: followed_active)
qed

lemma arrival_fst: "fst (arrival net s p w) = walk_end net s w"
  by (induction w arbitrary: s p) auto

lemma arrival_snd:
  "w \<noteq> [] \<Longrightarrow> snd (arrival net s p w) = port (heap net (reverse (heap net (last w))))"
proof (induction w arbitrary: s p)
  case Nil
  then show ?case by simp
next
  case (Cons l w)
  then show ?case by (cases w) auto
qed

lemma acyclic_unique_arrival:
  assumes wf: "well_formed net" and sym: "symmetric_flags net" and acyc: "acyclic_active net"
  shows "unique_arrival net s p"
  unfolding unique_arrival_def
proof (intro allI impI, elim conjE)
  fix t q q'
  assume "(t, q) \<in> arrivals net s p" and "(t, q') \<in> arrivals net s p"
  then obtain a b where a: "teach_path net s p a" "arrival net s p a = (t, q)"
    and b: "teach_path net s p b" "arrival net s p b = (t, q')"
    by (auto simp: arrivals_def)
  note wa = teach_path_walk[OF a(1)] and wb = teach_path_walk[OF b(1)]
  have ea: "walk_end net s a = t" using arrival_fst[of net s p a] a(2) by simp
  have eb: "walk_end net s b = t" using arrival_fst[of net s p b] b(2) by simp
  have closed_empty: "w = []" if "active_walk net s w" "non_backtracking net w" "walk_end net s w = s" for w
    using acyc that unfolding acyclic_active_def by blast
  show "q = q'"
  proof (cases "a = []")
    case True
    then have "t = s" using ea by simp
    then have "b = []" using closed_empty[of b] wb eb by simp
    with True a(2) b(2) show ?thesis by simp
  next
    case False
    have "b \<noteq> []"
    proof
      assume "b = []"
      then have "t = s" using eb by simp
      then have "a = []" using closed_empty[of a] wa ea by simp
      with False show False by simp
    qed
    then have "last a = last b"
      using unique_last[OF wf sym acyc, of s a b] wa wb ea eb False by simp
    with arrival_snd[OF False, of net s p] arrival_snd[OF \<open>b \<noteq> []\<close>, of net s p] a(2) b(2)
    show ?thesis by simp
  qed
qed

lemma well_formed_closed_links: "well_formed net \<Longrightarrow> closed_links net"
  unfolding closed_links_def using well_formed_links(1) by fastforce

lemma walk_vertex_prefix:
  "x \<in> set (map (\<lambda>l. switch (heap net l)) w) \<Longrightarrow>
   \<exists>u u'. w = u @ u' \<and> u \<noteq> [] \<and> walk_end net v u = x"
proof (induction w arbitrary: v)
  case Nil
  then show ?case by simp
next
  case (Cons l w)
  show ?case
  proof (cases "x = switch (heap net l)")
    case True
    have "l # w = [l] @ w \<and> [l] \<noteq> [] \<and> walk_end net v [l] = x" using True by simp
    then show ?thesis by blast
  next
    case False
    with Cons.prems have "x \<in> set (map (\<lambda>l. switch (heap net l)) w)" by simp
    from Cons.IH[OF this, of "switch (heap net l)"] obtain u u' where
      "w = u @ u'" "u \<noteq> []" "walk_end net (switch (heap net l)) u = x" by blast
    then have "l # w = (l # u) @ u' \<and> l # u \<noteq> [] \<and> walk_end net v (l # u) = x" by simp
    then show ?thesis by blast
  qed
qed

lemma acyclic_distinct:
  assumes acyc: "acyclic_active net"
  shows "active_walk net v w \<Longrightarrow> non_backtracking net w \<Longrightarrow> distinct (walk_vertices net v w)"
proof (induction w arbitrary: v)
  case Nil
  then show ?case by (simp add: walk_vertices_def)
next
  case (Cons l w)
  from Cons.prems(1) have w: "active_walk net (switch (heap net l)) w" by simp
  have nb: "non_backtracking net w" using Cons.prems(2) by (cases w) auto
  have d: "distinct (walk_vertices net (switch (heap net l)) w)" by (rule Cons.IH[OF w nb])
  have "v \<notin> set (map (\<lambda>l. switch (heap net l)) (l # w))"
  proof
    assume "v \<in> set (map (\<lambda>l. switch (heap net l)) (l # w))"
    from walk_vertex_prefix[OF this, of v] obtain u u' where
      u: "l # w = u @ u'" "u \<noteq> []" "walk_end net v u = v" by blast
    have "active_walk net v u" using Cons.prems(1) u(1) by (metis active_walk_append)
    moreover have "non_backtracking net u" using Cons.prems(2) u(1) by (metis non_backtracking_append)
    ultimately show False using acyc u(2,3) unfolding acyclic_active_def by blast
  qed
  with d show ?case by (simp add: walk_vertices_def)
qed

lemma teach_path_bounded:
  assumes "acyclic_active net" and "path_bound net d" and "teach_path net s p w"
  shows "length w \<le> d"
  using teach_path_walk[OF assms(3)] acyclic_distinct[OF assms(1)] assms(2)
  unfolding path_bound_def by blast

lemma links_of_registered: "links_of net x = Some ls \<Longrightarrow> x \<in> dpid ` set (switches net)"
  using links_of_SomeD[of net x ls] by (metis image_eqI)

lemma active_walk_vertices_registered:
  assumes wf: "well_formed net"
  shows "active_walk net v w \<Longrightarrow> w \<noteq> [] \<Longrightarrow>
     set (walk_vertices net v w) \<subseteq> dpid ` set (switches net)"
proof (induction w arbitrary: v)
  case Nil
  then show ?case by simp
next
  case (Cons l w)
  from Cons.prems(1) obtain ls where ls: "links_of net v = Some ls" and l: "l \<in> set ls"
    and w: "active_walk net (switch (heap net l)) w"
    by (auto simp: active_links_iff)
  from links_of_registered[OF ls] have v: "v \<in> dpid ` set (switches net)" .
  from well_formed_links(1)[OF wf ls l] obtain ls' where
    "links_of net (switch (heap net l)) = Some ls'" by blast
  from links_of_registered[OF this] have t: "switch (heap net l) \<in> dpid ` set (switches net)" .
  show ?case
  proof (cases w)
    case Nil
    with v t show ?thesis by (simp add: walk_vertices_def)
  next
    case (Cons l' w')
    with Cons.IH[OF w] v show ?thesis by (simp add: walk_vertices_def)
  qed
qed

lemma path_bound_switches:
  assumes wf: "well_formed net"
  shows "path_bound net (length (switches net) - 1)"
  unfolding path_bound_def
proof (intro allI impI, elim conjE)
  fix v w
  assume aw: "active_walk net v w" and d: "distinct (walk_vertices net v w)"
  show "length w \<le> length (switches net) - 1"
  proof (cases "w = []")
    case True
    then show ?thesis by simp
  next
    case False
    from active_walk_vertices_registered[OF wf aw False]
    have "card (set (walk_vertices net v w)) \<le> card (dpid ` set (switches net))"
      by (intro card_mono) auto
    also have "\<dots> \<le> length (switches net)"
      by (metis card_image_le card_length le_trans List.finite_set)
    finally have "length (walk_vertices net v w) \<le> length (switches net)"
      using d by (simp add: distinct_card)
    then show ?thesis by (simp add: walk_vertices_def)
  qed
qed

lemma ports_distinct_active:
  assumes pd: "ports_distinct net"
    and l: "l \<in> set (active_links net v)" and l': "l' \<in> set (active_links net v)"
    and ne: "l \<noteq> l'"
  shows "port (heap net l) \<noteq> port (heap net l')"
proof -
  from l obtain ls where ls: "links_of net v = Some ls" by (auto simp: active_links_iff)
  from links_of_SomeD[OF ls] obtain sw where sw: "sw \<in> set (switches net)" and k: "links sw = ls"
    by blast
  let ?as = "filter (\<lambda>x. active (heap net x)) ls"
  have d: "distinct (map (\<lambda>x. port (heap net x)) ?as)"
    using pd sw k unfolding ports_distinct_def by blast
  have "l \<in> set ?as" "l' \<in> set ?as" using l l' ls by (simp_all add: active_links_def)
  with d ne show ?thesis by (auto simp: distinct_map inj_on_def)
qed

lemma walk_teach_path:
  assumes wf: "well_formed net" and sym: "symmetric_flags net" and pd: "ports_distinct net"
  shows "active_walk net s w \<Longrightarrow> non_backtracking net w \<Longrightarrow>
     (w \<noteq> [] \<longrightarrow> port (heap net (hd w)) \<noteq> p) \<Longrightarrow> teach_path net s p w"
proof (induction w arbitrary: s p)
  case Nil
  then show ?case by simp
next
  case (Cons l w)
  from Cons.prems have l: "l \<in> set (active_links net s)" and lp: "port (heap net l) \<noteq> p"
    and w: "active_walk net (switch (heap net l)) w" by auto
  have nb: "non_backtracking net w" using Cons.prems(2) by (cases w) auto
  have first: "w \<noteq> [] \<longrightarrow> port (heap net (hd w)) \<noteq> port (heap net (reverse (heap net l)))"
  proof
    assume "w \<noteq> []"
    then obtain l' w' where c: "w = l' # w'" by (cases w) auto
    with Cons.prems(2) have ne: "l' \<noteq> reverse (heap net l)" by simp
    from w c have l': "l' \<in> set (active_links net (switch (heap net l)))" by simp
    from ports_distinct_active[OF pd l' active_links_reverse(1)[OF wf sym l] ne] c
    show "port (heap net (hd w)) \<noteq> port (heap net (reverse (heap net l)))" by simp
  qed
  from Cons.IH[OF w nb first] l lp show ?case by (simp add: followed_active)
qed

lemma non_backtracking_reduction_within:
  assumes wf: "well_formed net" and sym: "symmetric_flags net"
  shows "active_walk net s w \<Longrightarrow>
     \<exists>u. active_walk net s u \<and> non_backtracking net u \<and>
         walk_end net s u = walk_end net s w \<and> set u \<subseteq> set w"
proof (induction w rule: rev_induct)
  case Nil
  have "active_walk net s [] \<and> non_backtracking net [] \<and>
      walk_end net s [] = walk_end net s [] \<and> set [] \<subseteq> set ([] :: link_id list)"
    by simp
  then show ?case by blast
next
  case (snoc l w)
  from snoc.prems have w: "active_walk net s w"
    and l: "l \<in> set (active_links net (walk_end net s w))"
    by (simp_all add: active_walk_append)
  from snoc.IH[OF w] obtain u where u: "active_walk net s u" "non_backtracking net u"
    and e: "walk_end net s u = walk_end net s w" and sub: "set u \<subseteq> set w" by blast
  show ?case
  proof (cases "u \<noteq> [] \<and> l = reverse (heap net (last u))")
    case False
    have "active_walk net s (u @ [l])" using u(1) l e by (simp add: active_walk_append)
    moreover have "non_backtracking net (u @ [l])"
      using u(2) False by (auto simp: non_backtracking_append)
    moreover have "walk_end net s (u @ [l]) = walk_end net s (w @ [l])"
      by (simp add: walk_end_append)
    moreover have "set (u @ [l]) \<subseteq> set (w @ [l])" using sub by auto
    ultimately show ?thesis by blast
  next
    case True
    then have ne: "u \<noteq> []" and lr: "l = reverse (heap net (last u))" by auto
    have ub: "u = butlast u @ [last u]" using ne by simp
    have "active_walk net s (butlast u)" using u(1) ub by (metis active_walk_append)
    moreover have "non_backtracking net (butlast u)" using u(2) ub by (metis non_backtracking_append)
    moreover have "walk_end net s (butlast u) = walk_end net s (w @ [l])"
      using active_links_reverse(2)[OF wf sym walk_last_active[OF u(1) ne]] lr
      by (simp add: walk_end_append)
    moreover have "set (butlast u) \<subseteq> set (w @ [l])"
      using sub by (auto dest: in_set_butlastD)
    ultimately show ?thesis by blast
  qed
qed


lemma registered_links_of: "s \<in> dpid ` set (switches net) \<Longrightarrow> links_of net s \<noteq> None"
  using get_switch_registered[of s net] by (auto simp: links_of_def)

lemma teach_on_tree:
  assumes wf: "well_formed net" and sym: "symmetric_flags net" and acyc: "acyclic_active net"
    and reg: "s \<in> dpid ` set (switches net)" and pb: "path_bound net d"
  shows "\<exists>net'. teach_mac_location (Suc d) net s m p = Inr net' \<and> taught net net' m (arrivals net s p)"
proof (rule teach_general)
  show "closed_links net" by (rule well_formed_closed_links[OF wf])
  show "links_of net s \<noteq> None" by (rule registered_links_of[OF reg])
  show "\<forall>w. teach_path net s p w \<longrightarrow> length w \<le> d"
    using teach_path_bounded[OF acyc pb] by blast
  show "unique_arrival net s p" by (rule acyclic_unique_arrival[OF wf sym acyc])
qed

lemma length_switches_Suc:
  "s \<in> dpid ` set (switches net) \<Longrightarrow> length (switches net) = Suc (length (switches net) - 1)"
  by (cases "switches net") auto

lemma fold_returns:
  assumes sub: "\<And>l net1. l \<in> set ls0 \<Longrightarrow> same_topology net net1 \<Longrightarrow>
        \<exists>net2. teach_mac_location n net1 (switch (heap net l)) m
                  (port (heap net (reverse (heap net l)))) = Inr net2 \<and>
          same_topology net1 net2"
  shows "set ls \<subseteq> set ls0 \<Longrightarrow> same_topology net net1 \<Longrightarrow>
     \<exists>net2. fold (\<lambda>l res.
                  case res of
                    Inl e \<Rightarrow> Inl e
                  | Inr net' \<Rightarrow>
                      teach_mac_location n net' (switch (heap net' l)) m
                        (port (heap net' (reverse (heap net' l)))))
             ls (Inr net1) = Inr net2 \<and>
       same_topology net net2"
proof (induction ls arbitrary: net1)
  case Nil
  then show ?case by simp
next
  case (Cons l ls)
  from Cons.prems have l: "l \<in> set ls0" and ls: "set ls \<subseteq> set ls0" by auto
  have h: "heap net1 = heap net" using Cons.prems(2) by (simp add: same_topology_def)
  from sub[OF l Cons.prems(2)] obtain net2 where
    t: "teach_mac_location n net1 (switch (heap net l)) m
          (port (heap net (reverse (heap net l)))) = Inr net2"
    and s2: "same_topology net1 net2" by blast
  have "same_topology net net2" by (rule same_topology_trans[OF Cons.prems(2) s2])
  from Cons.IH[OF ls this] t show ?case by (simp add: h)
qed

lemma teach_returns:
  "closed_links net \<Longrightarrow> links_of net s \<noteq> None \<Longrightarrow>
   \<forall>w. teach_path net s p w \<longrightarrow> length w \<le> n \<Longrightarrow>
   \<exists>net'. teach_mac_location (Suc n) net s m p = Inr net' \<and> same_topology net net'"
proof (induction n arbitrary: net s p)
  case 0
  have "followed net s p = []"
  proof (rule ccontr)
    assume "followed net s p \<noteq> []"
    then obtain l where "l \<in> set (followed net s p)" by (cases "followed net s p") auto
    then have "teach_path net s p [l]" by simp
    with "0.prems"(3) show False by fastforce
  qed
  then show ?case
    using "0.prems"(2) by (simp add: teach_mac_location_Suc same_topology_learn)
next
  case (Suc n)
  let ?net0 = "learn_mac_location s m p net"
  have sub: "\<exists>net2. teach_mac_location (Suc n) net1 (switch (heap net l)) m
                  (port (heap net (reverse (heap net l)))) = Inr net2 \<and>
          same_topology net1 net2"
    if l: "l \<in> set (followed net s p)" and top: "same_topology net net1" for l net1
  proof -
    let ?t = "switch (heap net l)" and ?q = "port (heap net (reverse (heap net l)))"
    from l obtain ls where ls: "links_of net s = Some ls" and lin: "l \<in> set ls"
      by (auto simp: followed_iff)
    have c1: "closed_links net1" using Suc.prems(1) top by (simp add: closed_links_same)
    have r1: "links_of net1 ?t \<noteq> None"
      using Suc.prems(1) ls lin top by (auto simp: closed_links_def same_topology_def)
    have b1: "\<forall>w. teach_path net1 ?t ?q w \<longrightarrow> length w \<le> n"
    proof (intro allI impI)
      fix w assume "teach_path net1 ?t ?q w"
      then have "teach_path net s p (l # w)" using l top by (simp add: teach_path_same)
      with Suc.prems(3) have "length (l # w) \<le> Suc n" by blast
      then show "length w \<le> n" by simp
    qed
    from Suc.IH[OF c1 r1 b1] show ?thesis .
  qed
  from fold_returns[where ls0 = "followed net s p" and ls = "followed net s p"
        and n = "Suc n" and net = net and m = m and ?net1.0 = ?net0, OF sub]
  show ?case
    using Suc.prems(2)
    by (simp add: teach_mac_location_Suc[of "Suc n"] same_topology_learn)
qed


text \<open>
  C4. In a well-formed network whose active links are acyclic, \<^verbatim>\<open>_teach_mac_location\<close>
  on a registered switch returns, and needs no more nested calls than the longest path of
  active links has links (the diameter of the tree): with any bound \<open>d\<close> on the paths, the
  call and \<open>d\<close> nested calls are enough. Such a bound always exists (the number of
  switches minus one).
\<close>

theorem teach_terminates_on_tree:
  assumes "well_formed net" and "acyclic_active net" and "s \<in> dpid ` set (switches net)"
  shows "path_bound net (length (switches net) - 1) \<and>
         (\<forall>d. path_bound net d \<longrightarrow> (\<exists>net'. teach_mac_location (Suc d) net s m p = Inr net'))"
proof (intro conjI allI impI)
  show "path_bound net (length (switches net) - 1)" by (rule path_bound_switches[OF assms(1)])
next
  fix d assume pb: "path_bound net d"
  have "\<forall>w. teach_path net s p w \<longrightarrow> length w \<le> d"
    using teach_path_bounded[OF assms(2) pb] by blast
  from teach_returns[OF well_formed_closed_links[OF assms(1)] registered_links_of[OF assms(3)] this]
  show "\<exists>net'. teach_mac_location (Suc d) net s m p = Inr net'" by blast
qed

text \<open>
  C3, amended. In a well-formed network with symmetric flags whose active links are
  acyclic and where no switch has two active links on one port, after
  \<^verbatim>\<open>_teach_mac_location(s, m, p)\<close>, for any port argument \<open>p\<close>: the switch \<open>s\<close> has \<open>m\<close>
  at \<open>p\<close>; every switch at the end of a path of active links from \<open>s\<close> whose first link is
  not on port \<open>p\<close> has \<open>m\<close> at the port of the reverse of the last link of the path (its
  own link back toward \<open>s\<close>); and every switch that can be reached over active links
  without using a link of \<open>s\<close> on port \<open>p\<close> has an entry for \<open>m\<close>.
\<close>

theorem teach_reaches_active_component:
  assumes wf: "well_formed net" and sym: "symmetric_flags net" and acyc: "acyclic_active net"
    and pd: "ports_distinct net"
    and reg: "s \<in> dpid ` set (switches net)"
  shows "\<exists>net'. teach_mac_location (length (switches net)) net s m p = Inr net' \<and>
           lookup_mac net' s m = Some p \<and>
           (\<forall>w. w \<noteq> [] \<and> active_walk net s w \<and> non_backtracking net w \<and>
                port (heap net (hd w)) \<noteq> p \<longrightarrow>
                lookup_mac net' (walk_end net s w) m
                  = Some (port (heap net (reverse (heap net (last w)))))) \<and>
           (\<forall>w. active_walk net s w \<and>
                (\<forall>l \<in> set w. l \<in> set (active_links net s) \<longrightarrow> port (heap net l) \<noteq> p) \<longrightarrow>
                lookup_mac net' (walk_end net s w) m \<noteq> None)"
proof -
  from teach_on_tree[OF wf sym acyc reg path_bound_switches[OF wf], of m p]
    length_switches_Suc[OF reg]
  obtain net' where t: "teach_mac_location (length (switches net)) net s m p = Inr net'"
    and tg: "taught net net' m (arrivals net s p)" by auto
  have self: "lookup_mac net' s m = Some p"
    using tg arrivals_self[of s p net] by (simp add: taught_def)
  have path: "lookup_mac net' (walk_end net s w) m
                  = Some (port (heap net (reverse (heap net (last w)))))"
    if w: "w \<noteq> []" "active_walk net s w" "non_backtracking net w"
      and first: "port (heap net (hd w)) \<noteq> p" for w
  proof -
    have tp: "teach_path net s p w"
      using walk_teach_path[OF wf sym pd w(2,3)] first by simp
    have "arrival net s p w = (walk_end net s w, port (heap net (reverse (heap net (last w)))))"
      using arrival_fst[of net s p w] arrival_snd[OF w(1), of net s p]
      by (metis prod.collapse)
    with tp have "(walk_end net s w, port (heap net (reverse (heap net (last w)))))
        \<in> arrivals net s p" unfolding arrivals_def by blast
    with tg show ?thesis by (simp add: taught_def)
  qed
  have any: "lookup_mac net' (walk_end net s w) m \<noteq> None"
    if w: "active_walk net s w"
      and av: "\<forall>l \<in> set w. l \<in> set (active_links net s) \<longrightarrow> port (heap net l) \<noteq> p" for w
  proof -
    from non_backtracking_reduction_within[OF wf sym w] obtain u where
      u: "active_walk net s u" "non_backtracking net u" "walk_end net s u = walk_end net s w"
      and sub: "set u \<subseteq> set w"
      by blast
    show ?thesis
    proof (cases u)
      case Nil
      with u(3) self show ?thesis by simp
    next
      case (Cons l u')
      then have "l \<in> set (active_links net s)" and "l \<in> set w" using u(1) sub by auto
      with av have "port (heap net (hd u)) \<noteq> p" using Cons by auto
      from path[OF _ u(1,2) this] Cons u(3) show ?thesis by simp
    qed
  qed
  from t self path any show ?thesis by blast
qed

text \<open>
  C10. The arrival link is recognised by its port number alone. In a well-formed network
  with symmetric flags and acyclic active links, for every active link of the taught
  switch: if its port equals the port argument (whatever that port is attached to), the
  neighbour behind it is not taught, its entry for the MAC stays as it was; otherwise the
  link is followed, and the neighbour learns the MAC at the port of the reverse link.
\<close>

theorem teach_skips_links_on_arrival_port:
  assumes wf: "well_formed net" and sym: "symmetric_flags net" and acyc: "acyclic_active net"
    and reg: "s \<in> dpid ` set (switches net)"
  shows "\<exists>net'. teach_mac_location (length (switches net)) net s m p = Inr net' \<and>
           (\<forall>l \<in> set (active_links net s).
              (port (heap net l) = p \<longrightarrow>
                 lookup_mac net' (switch (heap net l)) m = lookup_mac net (switch (heap net l)) m) \<and>
              (port (heap net l) \<noteq> p \<longrightarrow>
                 lookup_mac net' (switch (heap net l)) m
                   = Some (port (heap net (reverse (heap net l))))))"
proof -
  from teach_on_tree[OF wf sym acyc reg path_bound_switches[OF wf], of m p]
    length_switches_Suc[OF reg]
  obtain net' where t: "teach_mac_location (length (switches net)) net s m p = Inr net'"
    and tg: "taught net net' m (arrivals net s p)" by auto
  have closed_empty: "w = []"
    if "active_walk net s w" "non_backtracking net w" "walk_end net s w = s" for w
    using acyc that unfolding acyclic_active_def by blast
  have skipped: "lookup_mac net' (switch (heap net l)) m = lookup_mac net (switch (heap net l)) m"
    if l: "l \<in> set (active_links net s)" and lp: "port (heap net l) = p" for l
  proof -
    have "switch (heap net l) \<notin> fst ` arrivals net s p"
    proof
      assume "switch (heap net l) \<in> fst ` arrivals net s p"
      then obtain w where tp: "teach_path net s p w"
        and e: "walk_end net s w = switch (heap net l)"
        using arrival_fst[of net s p] by (auto simp: arrivals_def) (metis fst_conv)
      note ww = teach_path_walk[OF tp]
      have single: "active_walk net s [l]" "non_backtracking net [l]" using l by simp_all
      show False
      proof (cases "w = []")
        case True
        with e have "walk_end net s [l] = s" by simp
        with closed_empty[OF single] show False by simp
      next
        case False
        have "last w = last [l]"
          by (rule unique_last[OF wf sym acyc]) (use ww False single e in auto)
        then have lw: "last w = l" by simp
        have wb: "w = butlast w @ [l]" using False lw by (metis append_butlast_last_id)
        show False
        proof (cases "butlast w = []")
          case True
          with wb have "w = [l]" by simp
          with tp lp show False by (simp add: followed_active)
        next
          case nonempty: False
          have "l \<in> set (active_links net (walk_end net s (butlast w)))"
            using walk_last_active[OF conjunct1[OF ww] False] lw by simp
          from active_links_reverse(2)[OF wf sym this] active_links_reverse(2)[OF wf sym l]
          have "walk_end net s (butlast w) = s" by simp
          moreover have "active_walk net s (butlast w)"
            using ww wb by (metis active_walk_append)
          moreover have "non_backtracking net (butlast w)"
            using ww wb by (metis non_backtracking_append)
          ultimately show False using closed_empty nonempty by blast
        qed
      qed
    qed
    with tg show ?thesis by (simp add: taught_def)
  qed
  have taken: "lookup_mac net' (switch (heap net l)) m = Some (port (heap net (reverse (heap net l))))"
    if l: "l \<in> set (active_links net s)" and lp: "port (heap net l) \<noteq> p" for l
  proof -
    have "teach_path net s p [l]" using l lp by (simp add: followed_active)
    moreover have "arrival net s p [l] = (switch (heap net l), port (heap net (reverse (heap net l))))"
      by simp
    ultimately have "(switch (heap net l), port (heap net (reverse (heap net l)))) \<in> arrivals net s p"
      unfolding arrivals_def by blast
    with tg show ?thesis by (simp add: taught_def)
  qed
  from t skipped taken show ?thesis by blast
qed

section \<open>The example of the spec, after the rebuild: properties\<close>

lemma find_map_of:
  "map_option links (find (\<lambda>sw. dpid sw = v) sws) = map_of (map (\<lambda>sw. (dpid sw, links sw)) sws) v"
  by (induction sws) auto

lemma links_of_map_of:
  "links_of net v = map_of (map (\<lambda>sw. (dpid sw, links sw)) (switches net)) v"
  unfolding links_of_def get_switch_def by (rule find_map_of)

lemma line_tree_switches:
  "map (\<lambda>sw. (dpid sw, links sw)) (switches line_tree) = [(1, [0]), (2, [1, 2]), (3, [3]), (4, [])]"
  by code_simp

lemma line_tree_heap:
  "map (\<lambda>l. (switch (heap line_tree l), reverse (heap line_tree l), active (heap line_tree l)))
     [0, 1, 2, 3] = [(2, 1, True), (1, 0, True), (3, 3, True), (2, 2, True)]"
  by code_simp

lemma line_tree_active_links:
  "active_links line_tree v =
     (if v = 1 then [0] else if v = 2 then [1, 2] else if v = 3 then [3] else [])"
  using line_tree_heap
  by (simp add: active_links_def links_of_map_of line_tree_switches)

lemma line_tree_fields:
  "switch (heap line_tree 0) = 2" "switch (heap line_tree (Suc 0)) = 1"
  "switch (heap line_tree 2) = 3" "switch (heap line_tree 3) = 2"
  "reverse (heap line_tree 0) = Suc 0" "reverse (heap line_tree (Suc 0)) = 0"
  "reverse (heap line_tree 2) = 3" "reverse (heap line_tree 3) = 2"
  using line_tree_heap by simp_all

lemma line_tree_walks:
  assumes "active_walk line_tree v w" and "non_backtracking line_tree w"
  shows "(v, w) \<in> {(v, []), (1, [0]), (1, [0, 2]), (2, [1]), (2, [2]), (3, [3]), (3, [3, 1])}"
proof (cases w)
  case Nil
  then show ?thesis by simp
next
  case w1: (Cons l w1)
  show ?thesis
  proof (cases w1)
    case Nil
    with w1 assms(1) show ?thesis
      by (auto simp: line_tree_active_links split: if_splits)
  next
    case w2: (Cons l' w2)
    show ?thesis
    proof (cases w2)
      case Nil
      with w1 w2 assms show ?thesis
        by (auto simp: line_tree_active_links line_tree_fields split: if_splits)
    next
      case (Cons l'' w3)
      with w1 w2 assms have False
        by (auto simp: line_tree_active_links line_tree_fields split: if_splits)
      then show ?thesis ..
    qed
  qed
qed

lemma acyclic_active_line_tree: "acyclic_active line_tree"
  unfolding acyclic_active_def
proof (intro allI impI, elim conjE)
  fix v w
  assume "w \<noteq> []" "active_walk line_tree v w" "non_backtracking line_tree w"
  with line_tree_walks[of v w] show "walk_end line_tree v w \<noteq> v"
    by (auto simp: line_tree_fields)
qed

lemma path_bound_line_tree: "path_bound line_tree 2"
  unfolding path_bound_def
proof (intro allI impI, elim conjE)
  fix v w
  assume aw: "active_walk line_tree v w" and d: "distinct (walk_vertices line_tree v w)"
  show "length w \<le> 2"
  proof (rule ccontr)
    assume "\<not> length w \<le> 2"
    then obtain l l' l'' w' where w: "w = l # l' # l'' # w'"
      by (cases w; cases "tl w"; cases "tl (tl w)") auto
    with aw d show False
      by (auto simp: line_tree_active_links line_tree_fields walk_vertices_def split: if_splits)
  qed
qed

lemma well_formed_line_tree: "well_formed line_tree"
  by code_simp

lemma symmetric_flags_line_tree: "symmetric_flags line_tree"
  by code_simp

lemma ports_distinct_line_tree: "ports_distinct line_tree"
  by code_simp

lemma line_tree_registered:
  "1 \<in> dpid ` set (switches line_tree)" "2 \<in> dpid ` set (switches line_tree)"
  "3 \<in> dpid ` set (switches line_tree)"
  by code_simp+

lemma length_switches_line_tree: "length (switches line_tree) = 4"
  by code_simp

theorem teach_terminates_on_tree_witness:
  "well_formed line_tree \<and> acyclic_active line_tree \<and>
   path_bound line_tree 2 \<and>
   (\<exists>net'. teach_mac_location 3 line_tree 3 ''AA:BB'' 5 = Inr net') \<and>
   (case teach_mac_location 2 line_tree 3 ''AA:BB'' 5 of
      Inl e \<Rightarrow> e = RecursionLimit
    | Inr net' \<Rightarrow> False)"
proof -
  from teach_terminates_on_tree[OF well_formed_line_tree
      acyclic_active_line_tree line_tree_registered(3), of "''AA:BB''" 5]
    path_bound_line_tree
  have "\<exists>net'. teach_mac_location (Suc 2) line_tree 3 ''AA:BB'' 5 = Inr net'" by blast
  moreover have "Suc 2 = 3" by simp
  moreover have "case teach_mac_location 2 line_tree 3 ''AA:BB'' 5 of
      Inl e \<Rightarrow> e = RecursionLimit
    | Inr net' \<Rightarrow> False"
    by code_simp
  ultimately show ?thesis
    using well_formed_line_tree acyclic_active_line_tree path_bound_line_tree
    by simp
qed

lemma shared_port_tree_switches:
  "map (\<lambda>sw. (dpid sw, links sw)) (switches shared_port_tree) = [(1, [0]), (2, [1, 3]), (3, [2])]"
  by code_simp

lemma shared_port_tree_heap:
  "map (\<lambda>l. (switch (heap shared_port_tree l), reverse (heap shared_port_tree l),
             active (heap shared_port_tree l), port (heap shared_port_tree l)))
     [0, 1, 2, 3] = [(2, 1, True, 1), (1, 0, True, 1), (2, 3, True, 1), (3, 2, True, 1)]"
  by code_simp

lemma shared_port_tree_active_links:
  "active_links shared_port_tree v =
     (if v = 1 then [0] else if v = 2 then [1, 3] else if v = 3 then [2] else [])"
  using shared_port_tree_heap
  by (simp add: active_links_def links_of_map_of shared_port_tree_switches)

lemma shared_port_tree_fields:
  "switch (heap shared_port_tree 0) = 2" "switch (heap shared_port_tree (Suc 0)) = 1"
  "switch (heap shared_port_tree 2) = 2" "switch (heap shared_port_tree 3) = 3"
  "reverse (heap shared_port_tree 0) = Suc 0" "reverse (heap shared_port_tree (Suc 0)) = 0"
  "reverse (heap shared_port_tree 2) = 3" "reverse (heap shared_port_tree 3) = 2"
  using shared_port_tree_heap by simp_all

lemma shared_port_tree_walks:
  assumes "active_walk shared_port_tree v w" and "non_backtracking shared_port_tree w"
  shows "(v, w) \<in> {(v, []), (1, [0]), (1, [0, 3]), (2, [1]), (2, [3]), (3, [2]), (3, [2, 1])}"
proof (cases w)
  case Nil
  then show ?thesis by simp
next
  case w1: (Cons l w1)
  show ?thesis
  proof (cases w1)
    case Nil
    with w1 assms(1) show ?thesis
      by (auto simp: shared_port_tree_active_links split: if_splits)
  next
    case w2: (Cons l' w2)
    show ?thesis
    proof (cases w2)
      case Nil
      with w1 w2 assms show ?thesis
        by (auto simp: shared_port_tree_active_links shared_port_tree_fields split: if_splits)
    next
      case (Cons l'' w3)
      with w1 w2 assms have False
        by (auto simp: shared_port_tree_active_links shared_port_tree_fields split: if_splits)
      then show ?thesis ..
    qed
  qed
qed

lemma acyclic_active_shared_port_tree: "acyclic_active shared_port_tree"
  unfolding acyclic_active_def
proof (intro allI impI, elim conjE)
  fix v w
  assume "w \<noteq> []" "active_walk shared_port_tree v w" "non_backtracking shared_port_tree w"
  with shared_port_tree_walks[of v w] show "walk_end shared_port_tree v w \<noteq> v"
    by (auto simp: shared_port_tree_fields)
qed


text \<open>
  C3, as the claim states it, fails in two ways. When the port argument is the port of an
  active link: teaching switch 1 a MAC at port 1, the port of its link to switch 2, leaves
  switch 2, reachable over that active link, with no entry. When a switch on the way has
  two active links on one port: with switches 1 and 3 both behind port 1 of switch 2,
  teaching switch 1 at a host port reaches switch 2 on its port 1, where the link to
  switch 3 is skipped, and switch 3 gets no entry.
\<close>

theorem teach_reaches_active_component_counterexample:
  "acyclic_active line_tree \<and> active_walk line_tree 1 [0] \<and> walk_end line_tree 1 [0] = 2 \<and>
   (case teach_mac_location 4 line_tree 1 ''AA:BB'' 1 of
      Inl e \<Rightarrow> False
    | Inr net' \<Rightarrow> lookup_mac net' 1 ''AA:BB'' = Some 1 \<and> lookup_mac net' 2 ''AA:BB'' = None) \<and>
   acyclic_active shared_port_tree \<and> active_links shared_port_tree 1 = [0] \<and>
   port (heap shared_port_tree 0) = 1 \<and>
   active_walk shared_port_tree 1 [0, 3] \<and> walk_end shared_port_tree 1 [0, 3] = 3 \<and>
   (case teach_mac_location 4 shared_port_tree 1 ''AA:BB'' 9 of
      Inl e \<Rightarrow> False
    | Inr net' \<Rightarrow> lookup_mac net' 2 ''AA:BB'' = Some 1 \<and> lookup_mac net' 3 ''AA:BB'' = None)"
proof -
  have "active_walk line_tree 1 [0]" by code_simp
  moreover have "walk_end line_tree 1 [0] = 2" by code_simp
  moreover have "case teach_mac_location 4 line_tree 1 ''AA:BB'' 1 of
      Inl e \<Rightarrow> False
    | Inr net' \<Rightarrow> lookup_mac net' 1 ''AA:BB'' = Some 1 \<and> lookup_mac net' 2 ''AA:BB'' = None"
    by code_simp
  moreover have "active_links shared_port_tree 1 = [0]"
    by (simp add: shared_port_tree_active_links)
  moreover have "port (heap shared_port_tree 0) = 1" by code_simp
  moreover have "active_walk shared_port_tree 1 [0, 3]" by code_simp
  moreover have "walk_end shared_port_tree 1 [0, 3] = 3" by code_simp
  moreover have "case teach_mac_location 4 shared_port_tree 1 ''AA:BB'' 9 of
      Inl e \<Rightarrow> False
    | Inr net' \<Rightarrow> lookup_mac net' 2 ''AA:BB'' = Some 1 \<and> lookup_mac net' 3 ''AA:BB'' = None"
    by code_simp
  ultimately show ?thesis
    using acyclic_active_line_tree acyclic_active_shared_port_tree by simp
qed

theorem teach_reaches_active_component_witness:
  "well_formed line_tree \<and> symmetric_flags line_tree \<and> acyclic_active line_tree \<and>
   ports_distinct line_tree \<and>
   (\<exists>net'. teach_mac_location 4 line_tree 3 ''AA:BB'' 5 = Inr net' \<and>
      lookup_mac net' 3 ''AA:BB'' = Some 5 \<and>
      lookup_mac net' 2 ''AA:BB'' = Some 2 \<and>
      lookup_mac net' 1 ''AA:BB'' = Some 1) \<and>
   active_links line_tree 2 = [1, 2] \<and> port (heap line_tree 1) = 1 \<and>
   port (heap line_tree 2) = 2 \<and>
   (\<exists>net'. teach_mac_location 4 line_tree 2 ''AA:BB'' 1 = Inr net' \<and>
      lookup_mac net' 2 ''AA:BB'' = Some 1 \<and>
      lookup_mac net' 3 ''AA:BB'' = Some 1)"
proof -
  note hyps = well_formed_line_tree symmetric_flags_line_tree acyclic_active_line_tree
    ports_distinct_line_tree
  have first: "\<exists>net'. teach_mac_location 4 line_tree 3 ''AA:BB'' 5 = Inr net' \<and>
      lookup_mac net' 3 ''AA:BB'' = Some 5 \<and>
      lookup_mac net' 2 ''AA:BB'' = Some 2 \<and>
      lookup_mac net' 1 ''AA:BB'' = Some 1"
  proof -
    from teach_reaches_active_component[OF hyps line_tree_registered(3), of "''AA:BB''" 5]
    obtain net' where t: "teach_mac_location (length (switches line_tree)) line_tree 3 ''AA:BB'' 5 = Inr net'"
      and self: "lookup_mac net' 3 ''AA:BB'' = Some 5"
      and path: "\<And>w. w \<noteq> [] \<and> active_walk line_tree 3 w \<and> non_backtracking line_tree w \<and>
            port (heap line_tree (hd w)) \<noteq> 5 \<Longrightarrow>
          lookup_mac net' (walk_end line_tree 3 w) ''AA:BB''
            = Some (port (heap line_tree (reverse (heap line_tree (last w)))))"
      by blast
    have w1: "[3] \<noteq> [] \<and> active_walk line_tree 3 [3] \<and> non_backtracking line_tree [3] \<and>
        port (heap line_tree (hd [3])) \<noteq> 5"
      by code_simp
    have w2: "[3, 1] \<noteq> [] \<and> active_walk line_tree 3 [3, 1] \<and> non_backtracking line_tree [3, 1] \<and>
        port (heap line_tree (hd [3, 1])) \<noteq> 5"
      by code_simp
    have e1: "walk_end line_tree 3 [3] = 2"
      "port (heap line_tree (reverse (heap line_tree (last [3])))) = 2" by code_simp+
    have e2: "walk_end line_tree 3 [3, 1] = 1"
      "port (heap line_tree (reverse (heap line_tree (last [3, 1])))) = 1" by code_simp+
    from path[OF w1] e1 have l2: "lookup_mac net' 2 ''AA:BB'' = Some 2" by simp
    from path[OF w2] e2 have l1: "lookup_mac net' 1 ''AA:BB'' = Some 1" by simp
    from t have "teach_mac_location 4 line_tree 3 ''AA:BB'' 5 = Inr net'"
      by (simp add: length_switches_line_tree)
    with self l2 l1 show ?thesis by blast
  qed
  have al: "active_links line_tree 2 = [1, 2]" by (simp add: line_tree_active_links)
  have f: "port (heap line_tree 1) = 1" "port (heap line_tree 2) = 2" by code_simp+
  have second: "\<exists>net'. teach_mac_location 4 line_tree 2 ''AA:BB'' 1 = Inr net' \<and>
      lookup_mac net' 2 ''AA:BB'' = Some 1 \<and>
      lookup_mac net' 3 ''AA:BB'' = Some 1"
  proof -
    from teach_reaches_active_component[OF hyps line_tree_registered(2), of "''AA:BB''" 1]
    obtain net' where t: "teach_mac_location (length (switches line_tree)) line_tree 2 ''AA:BB'' 1 = Inr net'"
      and self: "lookup_mac net' 2 ''AA:BB'' = Some 1"
      and path: "\<And>w. w \<noteq> [] \<and> active_walk line_tree 2 w \<and> non_backtracking line_tree w \<and>
            port (heap line_tree (hd w)) \<noteq> 1 \<Longrightarrow>
          lookup_mac net' (walk_end line_tree 2 w) ''AA:BB''
            = Some (port (heap line_tree (reverse (heap line_tree (last w)))))"
      by blast
    have w1: "[2] \<noteq> [] \<and> active_walk line_tree 2 [2] \<and> non_backtracking line_tree [2] \<and>
        port (heap line_tree (hd [2])) \<noteq> 1"
      by code_simp
    have e1: "walk_end line_tree 2 [2] = 3"
      "port (heap line_tree (reverse (heap line_tree (last [2])))) = 1" by code_simp+
    from path[OF w1] e1 have l3: "lookup_mac net' 3 ''AA:BB'' = Some 1" by simp
    from t have "teach_mac_location 4 line_tree 2 ''AA:BB'' 1 = Inr net'"
      by (simp add: length_switches_line_tree)
    with self l3 show ?thesis by blast
  qed
  from first second al f hyps show ?thesis by blast
qed

theorem teach_skips_links_on_arrival_port_witness:
  "well_formed line_tree \<and> symmetric_flags line_tree \<and> acyclic_active line_tree \<and>
   active_links line_tree 2 = [1, 2] \<and>
   port (heap line_tree 1) = 1 \<and> switch (heap line_tree 1) = 1 \<and>
   port (heap line_tree 2) = 2 \<and> switch (heap line_tree 2) = 3 \<and>
   (\<exists>net'. teach_mac_location 4 line_tree 2 ''AA:BB'' 1 = Inr net' \<and>
      lookup_mac net' 1 ''AA:BB'' = lookup_mac line_tree 1 ''AA:BB'' \<and>
      lookup_mac net' 3 ''AA:BB'' = Some 1)"
proof -
  have al: "active_links line_tree 2 = [1, 2]" by (simp add: line_tree_active_links)
  have f: "port (heap line_tree 1) = 1" "switch (heap line_tree 1) = 1"
    "port (heap line_tree 2) = 2" "switch (heap line_tree 2) = 3"
    "port (heap line_tree (reverse (heap line_tree 2))) = 1"
    by code_simp+
  from teach_skips_links_on_arrival_port[OF well_formed_line_tree symmetric_flags_line_tree
      acyclic_active_line_tree line_tree_registered(2), of "''AA:BB''" 1]
  obtain net' where t: "teach_mac_location (length (switches line_tree)) line_tree 2 ''AA:BB'' 1 = Inr net'"
    and each: "\<forall>l \<in> set (active_links line_tree 2).
              (port (heap line_tree l) = 1 \<longrightarrow>
                 lookup_mac net' (switch (heap line_tree l)) ''AA:BB''
                   = lookup_mac line_tree (switch (heap line_tree l)) ''AA:BB'') \<and>
              (port (heap line_tree l) \<noteq> 1 \<longrightarrow>
                 lookup_mac net' (switch (heap line_tree l)) ''AA:BB''
                   = Some (port (heap line_tree (reverse (heap line_tree l)))))"
    by blast
  have m1: "(1::nat) \<in> set (active_links line_tree 2)" and m2: "(2::nat) \<in> set (active_links line_tree 2)"
    by (simp_all add: al)
  from bspec[OF each m1] f have s1: "lookup_mac net' 1 ''AA:BB'' = lookup_mac line_tree 1 ''AA:BB''"
    by simp
  from bspec[OF each m2] f have s3: "lookup_mac net' 3 ''AA:BB'' = Some 1"
    by simp
  from t have "teach_mac_location 4 line_tree 2 ''AA:BB'' 1 = Inr net'"
    by (simp add: length_switches_line_tree)
  with s1 s3 al f well_formed_line_tree symmetric_flags_line_tree acyclic_active_line_tree
  show ?thesis by blast
qed

section \<open>The invariants hold in every state the events produce: properties\<close>

lemma update_switch_twice:
  "update_switch (\<lambda>s. s\<lparr>links := links s @ [r]\<rparr>) b
     (update_switch (\<lambda>s. s\<lparr>links := links s @ [l]\<rparr>) a sws) = map (with_links a l b r) sws"
  by (simp add: update_switch_def with_links_def)

lemma dpid_with_links [simp]: "dpid (with_links a l b r sw) = dpid sw"
  by (simp add: with_links_def)

lemma links_with_links:
  "set (links (with_links a l b r sw))
     = set (links sw) \<union> (if dpid sw = a then {l} else {}) \<union> (if dpid sw = b then {r} else {})"
  by (auto simp: with_links_def)

lemma consistent_add_pair:
  assumes c: "consistent net"
    and a: "a \<in> dpid ` set (switches net)" and b: "b \<in> dpid ` set (switches net)"
  shows "consistent
     (net\<lparr>switches := map (with_links a (next_link net) b (Suc (next_link net))) (switches net),
          heap := (heap net)
            (next_link net := \<lparr>owner = a, port = lp, switch = b, peer_port = rp,
                                active = False, reverse = Suc (next_link net)\<rparr>,
             Suc (next_link net) := \<lparr>owner = b, port = rp, switch = a, peer_port = lp,
                                     active = False, reverse = next_link net\<rparr>),
          next_link := Suc (Suc (next_link net))\<rparr>)"
    (is "consistent ?net'")
proof -
  let ?n = "next_link net" and ?h = "heap net" and ?h' = "heap ?net'"
  let ?F = "with_links a ?n b (Suc ?n)"
  from c have wf: "well_formed net" and al: "allocated net" and sym: "symmetric_flags net"
    by (simp_all add: consistent_def)
  have sw': "switches ?net' = map ?F (switches net)" by simp
  have old: "?h' x = ?h x" if "x < ?n" for x using that by simp
  have hl: "?h' ?n = \<lparr>owner = a, port = lp, switch = b, peer_port = rp,
                        active = False, reverse = Suc ?n\<rparr>" by simp
  have hr: "?h' (Suc ?n) = \<lparr>owner = b, port = rp, switch = a, peer_port = lp,
                        active = False, reverse = ?n\<rparr>" by simp
  have lt: "x < ?n" if "sw \<in> set (switches net)" "x \<in> set (links sw)" for sw x
    using al that by (auto simp: allocated_def)
  from a obtain swa where swa: "swa \<in> set (switches net)" "dpid swa = a" by auto
  from b obtain swb where swb: "swb \<in> set (switches net)" "dpid swb = b" by auto
  have each: "owner (?h' x) = dpid sw \<and>
        reverse (?h' (reverse (?h' x))) = x \<and>
        switch (?h' (reverse (?h' x))) = dpid sw \<and>
        (\<exists>sw' \<in> set (switches net).
           dpid sw' = switch (?h' x) \<and> reverse (?h' x) \<in> set (links (?F sw'))) \<and>
        x < Suc (Suc ?n) \<and>
        active (?h' x) = active (?h' (reverse (?h' x)))"
    if sw: "sw \<in> set (switches net)" and x: "x \<in> set (links (?F sw))" for sw x
  proof -
    from x consider (old) "x \<in> set (links sw)" | (l) "x = ?n" "dpid sw = a"
      | (r) "x = Suc ?n" "dpid sw = b"
      by (auto simp: links_with_links split: if_splits)
    then show ?thesis
    proof cases
      case old
      have xn: "x < ?n" by (rule lt[OF sw old])
      from wf sw old have o: "owner (?h x) = dpid sw"
        and rr: "reverse (?h (reverse (?h x))) = x"
        and sr: "switch (?h (reverse (?h x))) = dpid sw"
        and ex: "\<exists>sw' \<in> set (switches net).
                   dpid sw' = switch (?h x) \<and> reverse (?h x) \<in> set (links sw')"
        unfolding well_formed_def by blast+
      from ex obtain sw'' where s'': "sw'' \<in> set (switches net)"
        and d'': "dpid sw'' = switch (?h x)" and r'': "reverse (?h x) \<in> set (links sw'')"
        by blast
      have yn: "reverse (?h x) < ?n" by (rule lt[OF s'' r''])
      have "reverse (?h x) \<in> set (links (?F sw''))" using r'' by (simp add: links_with_links)
      moreover have "active (?h x) = active (?h (reverse (?h x)))"
        using sym sw old by (auto simp: symmetric_flags_def)
      ultimately show ?thesis
        using o rr sr s'' d'' xn yn by (auto simp: old[unfolded] fun_upd_apply)
    next
      case l
      have "Suc ?n \<in> set (links (?F swb))" using swb by (simp add: links_with_links)
      then show ?thesis using l swb by auto
    next
      case r
      have "?n \<in> set (links (?F swa))" using swa by (simp add: links_with_links)
      then show ?thesis using r swa by auto
    qed
  qed
  have d: "distinct (map dpid (switches ?net'))"
    using wf by (simp add: well_formed_def comp_def)
  have "well_formed ?net'"
    unfolding well_formed_def
  proof (intro conjI ballI)
    show "distinct (map dpid (switches ?net'))" by (rule d)
  next
    fix sw' x assume "sw' \<in> set (switches ?net')" and x: "x \<in> set (links sw')"
    then obtain sw where sw: "sw \<in> set (switches net)" and e: "sw' = ?F sw" by auto
    from each[OF sw x[unfolded e]]
    show "owner (?h' x) = dpid sw'"
      and "reverse (?h' (reverse (?h' x))) = x"
      and "switch (?h' (reverse (?h' x))) = dpid sw'"
      and "\<exists>sw''\<in>set (switches ?net').
            dpid sw'' = switch (?h' x) \<and> reverse (?h' x) \<in> set (links sw'')"
      using e by (auto simp del: fun_upd_apply)
  qed
  moreover have "allocated ?net'"
    unfolding allocated_def
  proof (intro ballI)
    fix sw' x assume "sw' \<in> set (switches ?net')" and x: "x \<in> set (links sw')"
    then obtain sw where sw: "sw \<in> set (switches net)" and e: "sw' = ?F sw" by auto
    from each[OF sw x[unfolded e]] show "x < next_link ?net'" by simp
  qed
  moreover have "symmetric_flags ?net'"
    unfolding symmetric_flags_def
  proof (intro ballI)
    fix sw' x assume "sw' \<in> set (switches ?net')" and x: "x \<in> set (links sw')"
    then obtain sw where sw: "sw \<in> set (switches net)" and e: "sw' = ?F sw" by auto
    from each[OF sw x[unfolded e]] show "active (?h' x) = active (?h' (reverse (?h' x)))"
      by blast
  qed
  ultimately show ?thesis by (simp add: consistent_def)
qed

lemma consistent_add_link:
  assumes "consistent net" and "b \<in> dpid ` set (switches net)"
  shows "consistent (add_link a lp b rp net)"
proof (cases "get_switch net a")
  case None
  then show ?thesis using assms(1) by (simp add: add_link_def)
next
  case (Some sw)
  have a: "a \<in> dpid ` set (switches net)"
    using get_switch_SomeD[OF Some] by (metis image_eqI)
  show ?thesis
  proof (cases "lp \<in> set (map (\<lambda>x. port (heap net x)) (links sw))")
    case True
    then show ?thesis using assms(1) Some by (simp add: add_link_def)
  next
    case False
    from consistent_add_pair[OF assms(1) a assms(2), of lp rp] False Some
    show ?thesis by (simp add: add_link_def Let_def update_switch_twice)
  qed
qed

lemma consistent_cong:
  assumes "switches net' = switches net" and "next_link net' = next_link net"
    and "\<And>x. owner (heap net' x) = owner (heap net x)"
    and "\<And>x. switch (heap net' x) = switch (heap net x)"
    and "\<And>x. reverse (heap net' x) = reverse (heap net x)"
  shows "well_formed net' = well_formed net" and "allocated net' = allocated net"
  using assms by (simp_all add: well_formed_def allocated_def)

lemma rebuild_frame:
  "switches (snd (rebuild_spanning_tree start net)) = switches net \<and>
   next_link (snd (rebuild_spanning_tree start net)) = next_link net \<and>
   (\<forall>x. owner (heap (snd (rebuild_spanning_tree start net)) x) = owner (heap net x) \<and>
        switch (heap (snd (rebuild_spanning_tree start net)) x) = switch (heap net x) \<and>
        reverse (heap (snd (rebuild_spanning_tree start net)) x) = reverse (heap net x))"
proof -
  let ?m0 = "\<lparr>store = heap net, best_links = {}, links_to_deactivate = {}\<rparr>"
  have st: "store m = flagged (heap net) (best_links m)"
    if "mark_paths net ps ?m0 = (e, m)" for ps e m
    using mark_paths_store[of ?m0 "heap net" net ps] that by (simp add: flagged_empty)
  show ?thesis
    unfolding rebuild_spanning_tree_def
    by (auto split: option.splits sum.splits prod.splits dest!: st)
qed

lemma consistent_rebuild:
  assumes "consistent net"
  shows "consistent (snd (rebuild_spanning_tree start net))"
proof -
  let ?net' = "snd (rebuild_spanning_tree start net)"
  from assms have wf: "well_formed net" and al: "allocated net" and sym: "symmetric_flags net"
    by (simp_all add: consistent_def)
  note f = rebuild_frame[of start net]
  have "well_formed ?net'" "allocated ?net'"
    using consistent_cong[of ?net' net] f wf al by simp_all
  moreover have "symmetric_flags ?net'"
    by (rule symmetric_flags_rebuild[OF wf sym])
  ultimately show ?thesis by (simp add: consistent_def)
qed

lemma consistent_root: "consistent (net\<lparr>root := r\<rparr>) = consistent net"
  by (simp add: consistent_def well_formed_def allocated_def symmetric_flags_def)

lemma consistent_handle:
  assumes "consistent net"
  shows "consistent (snd (handle_switch_LinkDiscoveryEvent event net))"
proof (cases "get_switch net (local_switch event)")
  case None
  then show ?thesis using assms by (simp add: handle_switch_LinkDiscoveryEvent_def)
next
  case loc: (Some loc)
  show ?thesis
  proof (cases "get_switch net (remote_dpid event)")
    case None
    then show ?thesis using assms loc by (simp add: handle_switch_LinkDiscoveryEvent_def)
  next
    case (Some rem)
    have "dpid rem \<in> dpid ` set (switches net)"
      using get_switch_SomeD[OF Some] by (metis image_eqI)
    from consistent_add_link[OF assms this]
    show ?thesis
      using loc Some
      by (simp add: handle_switch_LinkDiscoveryEvent_def Let_def consistent_rebuild consistent_root)
  qed
qed

lemma consistent_init_network: "distinct ds \<Longrightarrow> consistent (init_network ds)"
  by (simp add: consistent_def well_formed_def allocated_def symmetric_flags_def
      init_network_def new_switch_def comp_def)

lemma consistent_process_events:
  "consistent net \<Longrightarrow> process_events events net = Inr net' \<Longrightarrow> consistent net'"
proof (induction events arbitrary: net)
  case Nil
  then show ?case by simp
next
  case (Cons event events)
  from Cons.prems(2) obtain net1 where
    h: "handle_switch_LinkDiscoveryEvent event net = (None, net1)" and
    p: "process_events events net1 = Inr net'"
    by (auto split: prod.splits option.splits)
  from consistent_handle[OF Cons.prems(1), of event] h have "consistent net1" by simp
  from Cons.IH[OF this p] show ?case .
qed

text \<open>
  C2. Every execution of \<^verbatim>\<open>_rebuild_spanning_tree\<close>, whatever its start and however it
  ends, leaves every link's active flag equal to its reverse's, provided the network is
  well formed and the flags agreed before; and every network that a run of link-discovery
  events produces from freshly connected switches is well formed with agreeing flags
  (links are created in pairs, both inactive, and the rebuild ends each event).
\<close>

theorem rebuild_keeps_links_symmetric:
  "(well_formed net \<and> symmetric_flags net \<longrightarrow>
      symmetric_flags (snd (rebuild_spanning_tree start net))) \<and>
   (distinct ds \<and> process_events events (init_network ds) = Inr net \<longrightarrow>
      well_formed net \<and> symmetric_flags net)"
proof (intro conjI impI)
  assume "well_formed net \<and> symmetric_flags net"
  then show "symmetric_flags (snd (rebuild_spanning_tree start net))"
    using symmetric_flags_rebuild by blast
next
  assume a: "distinct ds \<and> process_events events (init_network ds) = Inr net"
  then have "consistent net"
    using consistent_process_events[OF consistent_init_network] by blast
  then show "well_formed net" and "symmetric_flags net" by (simp_all add: consistent_def)
qed

theorem rebuild_keeps_links_symmetric_witness:
  "\<exists>net. process_events [discovery 1 1 2 1, discovery 2 2 3 1] (init_network [1, 2, 3, 4]) = Inr net \<and>
     well_formed net \<and> symmetric_flags net \<and>
     symmetric_flags (snd (rebuild_spanning_tree (Some 2) net))"
proof -
  let ?E = "[discovery 1 1 2 1, discovery 2 2 3 1]"
  have "\<not> isl (process_events ?E (init_network [1, 2, 3, 4]))"
    by code_simp
  then obtain net where p: "process_events ?E (init_network [1, 2, 3, 4]) = Inr net"
    by (cases "process_events ?E (init_network [1, 2, 3, 4])") auto
  have d: "distinct [1, 2, 3, 4 :: int]" by simp
  from rebuild_keeps_links_symmetric[of net "Some 2" "[1, 2, 3, 4]" ?E] p d
  have "well_formed net \<and> symmetric_flags net \<and>
     symmetric_flags (snd (rebuild_spanning_tree (Some 2) net))" by blast
  with p show ?thesis by blast
qed

section \<open>Propagation over parallel links: properties\<close>

lemma parallel_tree_switches:
  "map (\<lambda>sw. (dpid sw, links sw)) (switches parallel_tree) = [(1, [0, 2]), (2, [1, 3])]"
  by code_simp

lemma parallel_tree_heap:
  "map (\<lambda>l. (port (heap parallel_tree l), switch (heap parallel_tree l),
             reverse (heap parallel_tree l), active (heap parallel_tree l))) [0, 1, 2, 3]
     = [(1, 2, 1, True), (1, 1, 0, True), (2, 2, 3, True), (2, 1, 2, True)]"
  by code_simp

lemma parallel_tree_followed:
  "followed parallel_tree 1 9 = [0, 2]" "followed parallel_tree 2 1 = [3]"
  "followed parallel_tree 1 2 = [0]"
  using parallel_tree_heap
  by (simp_all add: followed_def links_of_map_of parallel_tree_switches)

lemma parallel_tree_links_of:
  "links_of parallel_tree 1 \<noteq> None" "links_of parallel_tree 2 \<noteq> None"
  by (simp_all add: links_of_map_of parallel_tree_switches)

lemma parallel_tree_loop:
  "same_topology parallel_tree net \<Longrightarrow>
   teach_mac_location n net 2 m 1 = Inl RecursionLimit \<and>
   teach_mac_location n net 1 m 2 = Inl RecursionLimit"
proof (induction n arbitrary: net)
  case 0
  then show ?case by simp
next
  case (Suc n)
  have h: "heap net = heap parallel_tree" and lo: "links_of net = links_of parallel_tree"
    using Suc.prems by (simp_all add: same_topology_def)
  have t2: "same_topology parallel_tree (learn_mac_location 2 m 1 net)"
    and t1: "same_topology parallel_tree (learn_mac_location 1 m 2 net)"
    using Suc.prems same_topology_learn same_topology_trans by blast+
  have h2: "heap (learn_mac_location 2 m 1 net) = heap parallel_tree"
    and h1: "heap (learn_mac_location 1 m 2 net) = heap parallel_tree"
    using t1 t2 by (simp_all add: same_topology_def)
  from Suc.IH[OF t2] Suc.IH[OF t1] parallel_tree_heap
  show ?case
    by (simp add: teach_mac_location_Suc lo parallel_tree_links_of
        followed_same[OF Suc.prems] parallel_tree_followed h1 h2)
qed

lemma teach_exceeds_every_limit_on_parallel_links:
  "teach_mac_location n parallel_tree 1 m 9 = Inl RecursionLimit"
proof (cases n)
  case 0
  then show ?thesis by simp
next
  case (Suc k)
  have t: "same_topology parallel_tree (learn_mac_location 1 m 9 parallel_tree)"
    by (rule same_topology_learn)
  then have h: "heap (learn_mac_location 1 m 9 parallel_tree) = heap parallel_tree"
    by (simp add: same_topology_def)
  from parallel_tree_loop[OF t, of k m] parallel_tree_heap
  show ?thesis
    by (simp add: Suc teach_mac_location_Suc parallel_tree_links_of parallel_tree_followed h)
qed

end
